theory Spec2Isabelle
  imports Complex_Main "HOL-Library.AList" "HOL-Library.Multiset" "HOL-Library.Sublist"
    "HOL-Library.Log_Nat"
begin

section \<open>Strings and file names\<close>

text \<open>
  A JavaScript string is a sequence of UTF-16 code units; a \<^typ>\<open>string\<close> here is such a
  sequence with every code unit below U+0100, the character \<open>CHR n\<close> standing for the
  code unit \<open>n\<close>. Of the white space and line terminators that
  \<^verbatim>\<open>String.prototype.trim\<close> removes, this range holds TAB, LF, VT, FF, CR, SPACE and
  NO-BREAK SPACE (U+00A0). \<^verbatim>\<open>toLowerCase\<close> maps the letters A to Z and the capital
  letters of U+00C0 to U+00DE (all but the sign U+00D7) to the character 32 places on.
\<close>

definition is_space :: "char \<Rightarrow> bool" where
  "is_space c =
     (c \<in> set [CHR 0x09, CHR 0x0A, CHR 0x0B, CHR 0x0C, CHR 0x0D, CHR '' '', CHR 0xA0])"

definition trim :: "string \<Rightarrow> string" where
  "trim s = rev (dropWhile is_space (rev (dropWhile is_space s)))"

definition upper_letters :: string where
  "upper_letters =
     ''ABCDEFGHIJKLMNOPQRSTUVWXYZ''
     @ [CHR 0xC0, CHR 0xC1, CHR 0xC2, CHR 0xC3, CHR 0xC4, CHR 0xC5, CHR 0xC6, CHR 0xC7,
        CHR 0xC8, CHR 0xC9, CHR 0xCA, CHR 0xCB, CHR 0xCC, CHR 0xCD, CHR 0xCE, CHR 0xCF,
        CHR 0xD0, CHR 0xD1, CHR 0xD2, CHR 0xD3, CHR 0xD4, CHR 0xD5, CHR 0xD6, CHR 0xD8,
        CHR 0xD9, CHR 0xDA, CHR 0xDB, CHR 0xDC, CHR 0xDD, CHR 0xDE]"

definition lower_letters :: string where
  "lower_letters =
     ''abcdefghijklmnopqrstuvwxyz''
     @ [CHR 0xE0, CHR 0xE1, CHR 0xE2, CHR 0xE3, CHR 0xE4, CHR 0xE5, CHR 0xE6, CHR 0xE7,
        CHR 0xE8, CHR 0xE9, CHR 0xEA, CHR 0xEB, CHR 0xEC, CHR 0xED, CHR 0xEE, CHR 0xEF,
        CHR 0xF0, CHR 0xF1, CHR 0xF2, CHR 0xF3, CHR 0xF4, CHR 0xF5, CHR 0xF6, CHR 0xF8,
        CHR 0xF9, CHR 0xFA, CHR 0xFB, CHR 0xFC, CHR 0xFD, CHR 0xFE]"

definition lower_char :: "char \<Rightarrow> char" where
  "lower_char c =
     (case map_of (zip upper_letters lower_letters) c of
        Some l \<Rightarrow> l
      | None \<Rightarrow> c)"

definition toLowerCase :: "string \<Rightarrow> string" where
  "toLowerCase s = map lower_char s"

text \<open>\<^verbatim>\<open>s.split(',')\<close>: the pieces between the separators; never the empty list.\<close>

fun split :: "char \<Rightarrow> string \<Rightarrow> string list" where
  "split sep [] = [[]]"
| "split sep (c # cs) =
     (if c = sep then [] # split sep cs
      else (c # hd (split sep cs)) # tl (split sep cs))"

text \<open>\<^verbatim>\<open>hay.includes(needle)\<close>: the needle occurs as a contiguous run of the haystack.\<close>

fun str_includes :: "string \<Rightarrow> string \<Rightarrow> bool" where
  "str_includes [] needle = (needle = [])"
| "str_includes (c # cs) needle = (prefix needle (c # cs) \<or> str_includes cs needle)"

text \<open>
  \<^verbatim>\<open>path.extname\<close> and \<^verbatim>\<open>path.parse(...).name\<close> of Node, on a bare file name as
  \<^verbatim>\<open>readdirSync\<close> returns it (no directory separator): the extension starts at the
  last dot, and is empty when there is no dot, when the last dot is the first character,
  or when the name is \<^verbatim>\<open>..\<close>; the name is what precedes the extension.
\<close>

definition extname :: "string \<Rightarrow> string" where
  "extname p =
     (if CHR ''.'' \<notin> set p then []
      else let startDot = length p - Suc (length (takeWhile (\<lambda>c. c \<noteq> CHR ''.'') (rev p)))
           in if startDot = 0 \<or> p = ''..'' then [] else drop startDot p)"

definition parse_name :: "string \<Rightarrow> string" where
  "parse_name p = take (length p - length (extname p)) p"

definition is_image :: "string \<Rightarrow> bool" where
  "is_image file =
     (toLowerCase (extname file) \<in> set [''.jpg'', ''.jpeg'', ''.png'', ''.gif'', ''.webp'', ''.bmp''])"

definition is_caption :: "string \<Rightarrow> bool" where
  "is_caption file = (toLowerCase (extname file) = ''.txt'')"

text \<open>The output file of an image: \<^verbatim>\<open>`${path.parse(file).name}.txt`\<close>.\<close>

definition caption_name :: "string \<Rightarrow> string" where
  "caption_name file = parse_name file @ ''.txt''"

section \<open>The session directories\<close>

text \<open>
  A session is the directory \<^verbatim>\<open>uploads/<sessionId>\<close> and, once processed,
  \<^verbatim>\<open>results/<sessionId>\<close>. A directory is absent (\<open>None\<close>) or lists its entries in
  the order \<^verbatim>\<open>readdirSync\<close> reports them; a results directory maps each entry to its
  content, and \<^verbatim>\<open>writeFileSync\<close> replaces the content of an entry or adds the entry
  (\<open>AList.update\<close>). Session ids are plain directory names, and a path that exists is
  a directory that can be listed.
\<close>

record filesystem =
  uploads :: "string \<Rightarrow> string list option"
  results :: "string \<Rightarrow> (string \<times> string) list option"

definition image_files :: "string list \<Rightarrow> string list" where
  "image_files names = filter is_image names"

definition results_entries :: "filesystem \<Rightarrow> string \<Rightarrow> (string \<times> string) list" where
  "results_entries fs sessionId = (case results fs sessionId of None \<Rightarrow> [] | Some entries \<Rightarrow> entries)"

definition caption_files :: "filesystem \<Rightarrow> string \<Rightarrow> string list" where
  "caption_files fs sessionId = filter is_caption (map fst (results_entries fs sessionId))"

text \<open>\<^verbatim>\<open>fs.ensureDirSync(resultsDir)\<close>\<close>

definition ensureDir :: "filesystem \<Rightarrow> string \<Rightarrow> filesystem" where
  "ensureDir fs sessionId =
     (case results fs sessionId of
        None \<Rightarrow> fs\<lparr>results := (results fs)(sessionId \<mapsto> [])\<rparr>
      | Some _ \<Rightarrow> fs)"

section \<open>Responses\<close>

text \<open>
  An entry of \<^verbatim>\<open>results\<close> is \<^verbatim>\<open>{file, outputPath, caption}\<close>, the output path given
  by its name inside the results directory; an entry of \<^verbatim>\<open>errors\<close> is
  \<^verbatim>\<open>{file, error}\<close>.
\<close>

type_synonym caption_result = "string \<times> string \<times> string"

type_synonym file_error = "string \<times> string"

datatype response =
    ErrorResponse nat string
  | CaptionResponse "caption_result list" "file_error list"
  | TagsResponse "(string \<times> string) list" "file_error list"
  | StatusResponse nat nat int bool
  | Archive "string list"

text \<open>
  An error response carries the HTTP status and the message. The 200 responses carry the
  arrays of the JSON body; their \<^verbatim>\<open>message\<close> and \<^verbatim>\<open>sessionId\<close> fields repeat the
  array lengths and the request and are left out. A status response carries
  \<^verbatim>\<open>totalImages\<close>, \<^verbatim>\<open>processedImages\<close>, \<^verbatim>\<open>progress\<close> and \<^verbatim>\<open>isComplete\<close> (its
  \<^verbatim>\<open>status\<close> string repeats \<^verbatim>\<open>isComplete\<close>); an archive carries its entry names in the
  order they were added.
\<close>

section \<open>Numbers\<close>

text \<open>
  A JavaScript number is an IEEE 754 binary64 value, written here as a pair \<open>(m, e)\<close>
  that stands for \<open>m * 2 ^ e\<close>. \<open>round_fraction a b\<close> is the binary64 nearest to the
  positive fraction \<open>a / b\<close> (53-bit significand, ties to even), as division and
  multiplication deliver it; the counts of files are far inside the normal range.
\<close>

type_synonym binary64 = "int \<times> int"

definition round_fraction :: "int \<Rightarrow> int \<Rightarrow> binary64" where
  "round_fraction a b =
     (if a \<le> 0 then (0, 0)
      else let k = bitlen a - bitlen b;
               e = (if (if 0 \<le> k then b * 2 ^ nat k \<le> a else b \<le> a * 2 ^ nat (- k))
                    then k else k - 1);
               n = (if e \<le> 52 then a * 2 ^ nat (52 - e) else a);
               d = (if e \<le> 52 then b else b * 2 ^ nat (e - 52));
               q = n div d;
               r = n mod d;
               m = (if 2 * r < d then q
                    else if d < 2 * r then q + 1
                    else if even q then q else q + 1)
           in (m, e - 52))"

definition js_div :: "nat \<Rightarrow> nat \<Rightarrow> binary64" where
  "js_div a b = round_fraction (int a) (int b)"

definition js_mul :: "binary64 \<Rightarrow> nat \<Rightarrow> binary64" where
  "js_mul x c =
     (case x of (m, e) \<Rightarrow>
        if 0 \<le> e then round_fraction (m * int c * 2 ^ nat e) 1
        else round_fraction (m * int c) (2 ^ nat (- e)))"

definition Math_floor :: "binary64 \<Rightarrow> int" where
  "Math_floor x =
     (case x of (m, e) \<Rightarrow> if 0 \<le> e then m * 2 ^ nat e else m div 2 ^ nat (- e))"

section \<open>GET /api/caption/status/:sessionId\<close>

definition progress_of :: "nat \<Rightarrow> nat \<Rightarrow> int" where
  "progress_of processedImages totalImages =
     (if totalImages > 0
      then Math_floor (js_mul (js_div processedImages totalImages) 100)
      else 0)"

definition caption_status :: "filesystem \<Rightarrow> string \<Rightarrow> response" where
  "caption_status fs sessionId =
     (case uploads fs sessionId of
        None \<Rightarrow> ErrorResponse 404 ''Upload session not found''
      | Some names \<Rightarrow>
          let totalImages = length (image_files names);
              processedImages = length (caption_files fs sessionId)
          in StatusResponse totalImages processedImages
               (progress_of processedImages totalImages)
               (processedImages \<ge> totalImages \<and> totalImages > 0))"

section \<open>Caption generation\<close>

text \<open>
  What the world does with one file: the metadata read fails, the request to the model
  fails, the response has no usable first completion (reading it throws), the write of
  the caption file fails, or all succeed. Each failure carries the \<^verbatim>\<open>message\<close> of the
  error thrown; the last two carry the content of the first completion.
\<close>

datatype outcome =
    MetadataFails string
  | RequestFails string
  | BadResponse string
  | WriteFails string string
  | Completes string

text \<open>
  A job is one element of the file list with its position, so that a file listed twice
  is two jobs. Besides the directory and the two arrays, a run keeps the events of its
  jobs: \<open>Issued\<close> when \<^verbatim>\<open>map\<close> starts the function for the job and its first request
  goes out, \<open>Settled\<close> when the function returns after its write or its \<^verbatim>\<open>catch\<close>.
\<close>

type_synonym job = "nat \<times> string"

datatype event = Issued job | Settled job

record run_state =
  entries :: "(string \<times> string) list"
  out_results :: "caption_result list"
  out_errors :: "file_error list"
  events :: "event list"

definition error_message :: "string \<Rightarrow> string" where
  "error_message msg = (if msg = [] then ''Unknown error'' else msg)"

definition make_caption :: "string \<Rightarrow> string \<Rightarrow> string" where
  "make_caption globalTags content =
     (let caption = trim content
      in if globalTags \<noteq> [] \<and> trim globalTags \<noteq> []
         then caption @ '', '' @ trim globalTags
         else caption)"

definition record_error :: "run_state \<Rightarrow> job \<Rightarrow> string \<Rightarrow> run_state" where
  "record_error st j msg =
     st\<lparr>out_errors := out_errors st @ [(snd j, error_message msg)],
        events := events st @ [Settled j]\<rparr>"

text \<open>The body of the function mapped over a group, from its first line to its settling.\<close>

definition settle :: "(job \<Rightarrow> outcome) \<Rightarrow> string \<Rightarrow> run_state \<Rightarrow> job \<Rightarrow> run_state" where
  "settle env globalTags st j =
     (case env j of
        MetadataFails msg \<Rightarrow> record_error st j msg
      | RequestFails msg \<Rightarrow> record_error st j msg
      | BadResponse msg \<Rightarrow> record_error st j msg
      | WriteFails content msg \<Rightarrow> record_error st j msg
      | Completes content \<Rightarrow>
          let caption = make_caption globalTags content
          in st\<lparr>entries := AList.update (caption_name (snd j)) caption (entries st),
                out_results := out_results st @ [(snd j, caption_name (snd j), caption)],
                events := events st @ [Settled j]\<rparr>)"

text \<open>
  The promises of a group settle one at a time, in an order the code does not fix:
  \<open>pick\<close> names the pending job that settles next.
\<close>

function run_pending ::
  "(job list \<Rightarrow> nat) \<Rightarrow> (job \<Rightarrow> outcome) \<Rightarrow> string \<Rightarrow> run_state \<Rightarrow> job list \<Rightarrow> run_state" where
  "run_pending pick env globalTags st [] = st"
| "run_pending pick env globalTags st (j # js) =
     (let i = pick (j # js) mod length (j # js)
      in run_pending pick env globalTags (settle env globalTags st ((j # js) ! i))
           (take i (j # js) @ drop (Suc i) (j # js)))"
  by pat_completeness auto
termination
  by (relation "measure (\<lambda>(pick, env, globalTags, st, pending). length pending)") auto

definition process_group ::
  "(job list \<Rightarrow> nat) \<Rightarrow> (job \<Rightarrow> outcome) \<Rightarrow> string \<Rightarrow> run_state \<Rightarrow> job list \<Rightarrow> run_state" where
  "process_group pick env globalTags st grp =
     run_pending pick env globalTags (st\<lparr>events := events st @ map Issued grp\<rparr>) grp"

text \<open>
  \<^verbatim>\<open>for (let i = 0; i < files.length; i += batchSize) batches.push(files.slice(i, i + batchSize))\<close>.
  The test \<open>0 < batchSize\<close> makes the recursion total; the handlers pass 5 and 3.
\<close>

function slices :: "nat \<Rightarrow> nat \<Rightarrow> 'a list \<Rightarrow> 'a list list" where
  "slices batchSize i files =
     (if i < length files \<and> 0 < batchSize
      then take batchSize (drop i files) # slices batchSize (i + batchSize) files
      else [])"
  by pat_completeness auto
termination
  by (relation "measure (\<lambda>(batchSize, i, files). length files - i)") auto

declare slices.simps [simp del]

definition caption_run ::
  "(job list \<Rightarrow> nat) \<Rightarrow> (job \<Rightarrow> outcome) \<Rightarrow> string \<Rightarrow> nat \<Rightarrow> (string \<times> string) list \<Rightarrow>
     string list \<Rightarrow> run_state" where
  "caption_run pick env globalTags batchSize dir files =
     foldl (process_group pick env globalTags)
       \<lparr>entries = dir, out_results = [], out_errors = [], events = []\<rparr>
       (slices batchSize 0 (enumerate 0 files))"

definition finish :: "filesystem \<Rightarrow> string \<Rightarrow> run_state \<Rightarrow> response \<times> filesystem \<times> event list" where
  "finish fs sessionId st =
     (CaptionResponse (out_results st) (out_errors st),
      fs\<lparr>results := (results fs)(sessionId \<mapsto> entries st)\<rparr>,
      events st)"

subsection \<open>POST /api/caption/generate\<close>

text \<open>
  A handler returns its response, the file system it leaves and the events of the run.
  The token budget only travels to the model and is left out.
\<close>

definition generate ::
  "(job list \<Rightarrow> nat) \<Rightarrow> (job \<Rightarrow> outcome) \<Rightarrow> filesystem \<Rightarrow> string \<Rightarrow> string \<Rightarrow> string \<Rightarrow>
     response \<times> filesystem \<times> event list" where
  "generate pick env fs sessionId apiKey globalTags =
     (if sessionId = [] then (ErrorResponse 400 ''Session ID is required'', fs, [])
      else if apiKey = [] then (ErrorResponse 400 ''OpenAI API key is required'', fs, [])
      else case uploads fs sessionId of
        None \<Rightarrow> (ErrorResponse 404 ''Session not found'', fs, [])
      | Some names \<Rightarrow>
          let fs1 = ensureDir fs sessionId;
              files = image_files names
          in if files = [] then (ErrorResponse 400 ''No image files found in session'', fs1, [])
             else finish fs1 sessionId
                    (caption_run pick env globalTags 5 (results_entries fs1 sessionId) files))"

subsection \<open>POST /api/caption/batch\<close>

text \<open>
  \<^verbatim>\<open>files[index]\<close> is undefined outside the list, and \<^verbatim>\<open>filter(Boolean)\<close> keeps the
  defined, non-empty strings. \<open>fileIndices\<close> is \<open>None\<close> when the request carries no array.
\<close>

definition at_index :: "string list \<Rightarrow> int \<Rightarrow> string option" where
  "at_index files index = (if 0 \<le> index \<and> index < int (length files) then Some (files ! nat index) else None)"

definition Boolean :: "string option \<Rightarrow> bool" where
  "Boolean v = (case v of None \<Rightarrow> False | Some s \<Rightarrow> s \<noteq> [])"

definition select_files :: "string list \<Rightarrow> int list option \<Rightarrow> string list" where
  "select_files files fileIndices =
     (case fileIndices of
        None \<Rightarrow> files
      | Some indices \<Rightarrow>
          if indices \<noteq> [] then map the (filter Boolean (map (at_index files) indices))
          else files)"

definition batch ::
  "(job list \<Rightarrow> nat) \<Rightarrow> (job \<Rightarrow> outcome) \<Rightarrow> filesystem \<Rightarrow> string \<Rightarrow> string \<Rightarrow> string \<Rightarrow>
     int list option \<Rightarrow> response \<times> filesystem \<times> event list" where
  "batch pick env fs sessionId apiKey globalTags fileIndices =
     (if sessionId = [] then (ErrorResponse 400 ''Session ID is required'', fs, [])
      else if apiKey = [] then (ErrorResponse 400 ''OpenAI API key is required'', fs, [])
      else case uploads fs sessionId of
        None \<Rightarrow> (ErrorResponse 404 ''Session not found'', fs, [])
      | Some names \<Rightarrow>
          let fs1 = ensureDir fs sessionId;
              files = select_files (image_files names) fileIndices
          in if files = [] then (ErrorResponse 400 ''No image files found to process'', fs1, [])
             else finish fs1 sessionId
                    (caption_run pick env globalTags 3 (results_entries fs1 sessionId) files))"

subsection \<open>The two caption routes\<close>

text \<open>
  The router sends a request to one of the two handlers; a batch request carries its
  \<^verbatim>\<open>fileIndices\<close>. The files a route works on and the size of its groups are named
  for the statements below.
\<close>

datatype route = Generate | Batch "int list option"

definition caption_route ::
  "route \<Rightarrow> (job list \<Rightarrow> nat) \<Rightarrow> (job \<Rightarrow> outcome) \<Rightarrow> filesystem \<Rightarrow> string \<Rightarrow> string \<Rightarrow> string \<Rightarrow>
     response \<times> filesystem \<times> event list" where
  "caption_route r pick env fs sessionId apiKey globalTags =
     (case r of
        Generate \<Rightarrow> generate pick env fs sessionId apiKey globalTags
      | Batch fileIndices \<Rightarrow> batch pick env fs sessionId apiKey globalTags fileIndices)"

definition route_files :: "route \<Rightarrow> string list \<Rightarrow> string list" where
  "route_files r names =
     (case r of
        Generate \<Rightarrow> image_files names
      | Batch fileIndices \<Rightarrow> select_files (image_files names) fileIndices)"

definition route_size :: "route \<Rightarrow> nat" where
  "route_size r = (case r of Generate \<Rightarrow> 5 | Batch fileIndices \<Rightarrow> 3)"

section \<open>POST /api/caption/add-global-tags\<close>

text \<open>Whether reading or writing one caption file throws, with the message of the error.\<close>

datatype io_outcome = ReadError string | WriteError string | NoFault

definition tagsToAdd :: "string \<Rightarrow> string list" where
  "tagsToAdd globalTags =
     filter (\<lambda>tag. tag \<noteq> []) (map trim (split CHR '','' (trim globalTags)))"

definition add_tag :: "string \<Rightarrow> string \<Rightarrow> string" where
  "add_tag caption tag = (if \<not> str_includes caption tag then caption @ '', '' @ tag else caption)"

definition update_caption :: "string \<Rightarrow> string \<Rightarrow> string" where
  "update_caption globalTags content = foldl add_tag (trim content) (tagsToAdd globalTags)"

text \<open>
  One turn of the loop over the caption files, on the directory and the two arrays: the
  read throws (as the world has it, or because the entry is missing), the write throws,
  or the file is rewritten and reported.
\<close>

type_synonym tags_state = "(string \<times> string) list \<times> (string \<times> string) list \<times> file_error list"

definition update_file :: "(string \<Rightarrow> io_outcome) \<Rightarrow> string \<Rightarrow> tags_state \<Rightarrow> string \<Rightarrow> tags_state" where
  "update_file io globalTags st file =
     (case st of (dir, updated, errors) \<Rightarrow>
        (case io file of
           ReadError msg \<Rightarrow> (dir, updated, errors @ [(file, error_message msg)])
         | WriteError msg \<Rightarrow> (dir, updated, errors @ [(file, error_message msg)])
         | NoFault \<Rightarrow>
             (case map_of dir file of
                None \<Rightarrow> (dir, updated, errors @ [(file, error_message ''ENOENT'')])
              | Some content \<Rightarrow>
                  let caption = update_caption globalTags content
                  in (AList.update file caption dir, updated @ [(file, caption)], errors))))"

definition add_global_tags ::
  "(string \<Rightarrow> io_outcome) \<Rightarrow> filesystem \<Rightarrow> string \<Rightarrow> string \<Rightarrow> response \<times> filesystem" where
  "add_global_tags io fs sessionId globalTags =
     (if sessionId = [] then (ErrorResponse 400 ''Session ID is required'', fs)
      else if globalTags = [] \<or> trim globalTags = []
        then (ErrorResponse 400 ''Global tags are required'', fs)
      else case results fs sessionId of
        None \<Rightarrow> (ErrorResponse 404 ''Results not found for this session'', fs)
      | Some dir \<Rightarrow>
          let files = filter is_caption (map fst dir)
          in if files = [] then (ErrorResponse 400 ''No caption files found for this session'', fs)
             else case foldl (update_file io globalTags) (dir, [], []) files of
               (dir', updated, errors) \<Rightarrow>
                 (TagsResponse updated errors, fs\<lparr>results := (results fs)(sessionId \<mapsto> dir')\<rparr>))"

section \<open>GET /api/download/all/:sessionId\<close>

text \<open>
  \<^verbatim>\<open>captionMap\<close> is a plain object: reading a key it does not own yields what
  \<^verbatim>\<open>Object.prototype\<close> holds under that key, and assigning a string to \<^verbatim>\<open>__proto__\<close>
  stores nothing.
\<close>

datatype js_value = Undefined | Str string | Inherited

definition object_prototype_properties :: "string list" where
  "object_prototype_properties =
     [''constructor'', ''__defineGetter__'', ''__defineSetter__'', ''hasOwnProperty'',
      ''__lookupGetter__'', ''__lookupSetter__'', ''isPrototypeOf'', ''propertyIsEnumerable'',
      ''toString'', ''valueOf'', ''__proto__'', ''toLocaleString'']"

definition set_property :: "(string \<times> string) list \<Rightarrow> string \<Rightarrow> string \<Rightarrow> (string \<times> string) list" where
  "set_property obj key v = (if key = ''__proto__'' then obj else AList.update key v obj)"

definition get_property :: "(string \<times> string) list \<Rightarrow> string \<Rightarrow> js_value" where
  "get_property obj key =
     (case map_of obj key of
        Some v \<Rightarrow> Str v
      | None \<Rightarrow> if key \<in> set object_prototype_properties then Inherited else Undefined)"

definition captionMap :: "string list \<Rightarrow> (string \<times> string) list" where
  "captionMap captionFiles = foldl (\<lambda>obj file. set_property obj (parse_name file) file) [] captionFiles"

text \<open>
  The \<^verbatim>\<open>paired\<close> loop. \<^verbatim>\<open>path.join\<close> throws on an argument that is not a string, which
  ends the loop (\<open>None\<close>).
\<close>

fun paired_entries :: "(string \<times> string) list \<Rightarrow> string list \<Rightarrow> string list \<Rightarrow> string list option" where
  "paired_entries obj archive [] = Some archive"
| "paired_entries obj archive (file # files) =
     (let baseName = parse_name file;
          archive1 = archive @ [baseName @ ''/'' @ file]
      in case get_property obj baseName of
           Undefined \<Rightarrow> paired_entries obj archive1 files
         | Str c \<Rightarrow>
             if c \<noteq> [] then paired_entries obj (archive1 @ [baseName @ ''/'' @ c]) files
             else paired_entries obj archive1 files
         | Inherited \<Rightarrow> None)"

text \<open>\<open>format\<close> is \<open>None\<close> when the query has none; it then defaults to \<^verbatim>\<open>separate\<close>.\<close>

definition download_all :: "filesystem \<Rightarrow> string \<Rightarrow> string option \<Rightarrow> response" where
  "download_all fs sessionId query_format =
     (let format = (case query_format of None \<Rightarrow> ''separate'' | Some f \<Rightarrow> f)
      in case uploads fs sessionId of
        None \<Rightarrow> ErrorResponse 404 ''Upload session not found''
      | Some names \<Rightarrow>
          let imageFiles = image_files names;
              captionFiles = caption_files fs sessionId
          in if format = ''separate''
               then Archive (map (\<lambda>file. ''images/'' @ file) imageFiles
                             @ map (\<lambda>file. ''captions/'' @ file) captionFiles)
             else if format = ''paired''
               then (case paired_entries (captionMap captionFiles) [] imageFiles of
                       None \<Rightarrow> ErrorResponse 500 ''Error downloading all files''
                     | Some archive \<Rightarrow> Archive archive)
             else if format = ''flat'' then Archive (imageFiles @ captionFiles)
             else Archive [])"

section \<open>Concrete sessions\<close>

text \<open>The directory listings \<^verbatim>\<open>a.ext\<close>, \<^verbatim>\<open>aa.ext\<close>, \<^verbatim>\<open>aaa.ext\<close>, ... of a given length.\<close>

definition numbered :: "nat \<Rightarrow> string \<Rightarrow> string list" where
  "numbered k ext = map (\<lambda>n. replicate (Suc n) CHR ''a'' @ ext) [0..<k]"

text \<open>Session \<^verbatim>\<open>s\<close> with 50 uploaded images, 29 of them captioned.\<close>

definition half_done :: filesystem where
  "half_done =
     \<lparr>uploads = (\<lambda>_. None)(''s'' \<mapsto> numbered 50 ''.jpg''),
      results = (\<lambda>_. None)(''s'' \<mapsto> map (\<lambda>name. (name, ''cat'')) (numbered 29 ''.txt''))\<rparr>"

text \<open>Session \<^verbatim>\<open>s\<close> with the single upload \<^verbatim>\<open>constructor.jpg\<close> and no results directory.\<close>

definition reserved_name :: filesystem where
  "reserved_name = \<lparr>uploads = (\<lambda>_. None)(''s'' \<mapsto> [''constructor.jpg'']), results = (\<lambda>_. None)\<rparr>"

section \<open>The tag update as the specification words it\<close>

text \<open>
  Split the tag string on commas, trim each piece, drop the empty pieces; then go through
  the tags in order and append \<^verbatim>\<open>, <tag>\<close> for each tag that is not a contiguous part
  of the content as it stands.
\<close>

definition spec_tags :: "string \<Rightarrow> string list" where
  "spec_tags tagString = filter (\<lambda>tag. tag \<noteq> []) (map trim (split CHR '','' tagString))"

fun spec_append :: "string \<Rightarrow> string list \<Rightarrow> string" where
  "spec_append content [] = content"
| "spec_append content (tag # tags) =
     (if sublist tag content then spec_append content tags
      else spec_append (content @ '', '' @ tag) tags)"

text \<open>Session \<^verbatim>\<open>s\<close> whose results directory holds the one caption file \<^verbatim>\<open>x.txt\<close> with content \<^verbatim>\<open>a\<close>.\<close>

definition one_caption :: filesystem where
  "one_caption = \<lparr>uploads = (\<lambda>_. None), results = (\<lambda>_. None)(''s'' \<mapsto> [(''x.txt'', ''a'')])\<rparr>"

section \<open>Describing a run\<close>

text \<open>
  The content a job wrote, or the message it threw; the entries of \<^verbatim>\<open>results\<close> and
  \<^verbatim>\<open>errors\<close> that a list of jobs accounts for; the events of groups that settle in
  given orders; and the files whose requests were issued, in the order of issue.
\<close>

definition written :: "outcome \<Rightarrow> string option" where
  "written out = (case out of Completes content \<Rightarrow> Some content | _ \<Rightarrow> None)"

definition thrown :: "outcome \<Rightarrow> string option" where
  "thrown out =
     (case out of
        MetadataFails msg \<Rightarrow> Some msg
      | RequestFails msg \<Rightarrow> Some msg
      | BadResponse msg \<Rightarrow> Some msg
      | WriteFails content msg \<Rightarrow> Some msg
      | Completes content \<Rightarrow> None)"

definition successes :: "(job \<Rightarrow> outcome) \<Rightarrow> string \<Rightarrow> job list \<Rightarrow> caption_result list" where
  "successes env globalTags jobs =
     List.map_filter
       (\<lambda>j. map_option (\<lambda>content. (snd j, caption_name (snd j), make_caption globalTags content))
              (written (env j)))
       jobs"

definition failures :: "(job \<Rightarrow> outcome) \<Rightarrow> job list \<Rightarrow> file_error list" where
  "failures env jobs =
     List.map_filter (\<lambda>j. map_option (\<lambda>msg. (snd j, error_message msg)) (thrown (env j))) jobs"

definition group_events :: "job list list \<Rightarrow> job list list \<Rightarrow> event list" where
  "group_events groups orders =
     concat (map2 (\<lambda>grp order. map Issued grp @ map Settled order) groups orders)"

definition issued :: "event list \<Rightarrow> string list" where
  "issued evs = concat (map (\<lambda>e. case e of Issued j \<Rightarrow> [snd j] | Settled j \<Rightarrow> []) evs)"

text \<open>What a settling job does to the results directory.\<close>

definition write_caption ::
  "(job \<Rightarrow> outcome) \<Rightarrow> string \<Rightarrow> (string \<times> string) list \<Rightarrow> job \<Rightarrow> (string \<times> string) list" where
  "write_caption env globalTags dir j =
     (case written (env j) of
        None \<Rightarrow> dir
      | Some content \<Rightarrow> AList.update (caption_name (snd j)) (make_caption globalTags content) dir)"

text \<open>
  A schedule in which the first pending job always settles next, and a world in which
  every job completes with the content \<^verbatim>\<open>cat\<close>.
\<close>

definition settle_in_order :: "job list \<Rightarrow> nat" where
  "settle_in_order pending = 0"

definition completes_cat :: "job \<Rightarrow> outcome" where
  "completes_cat j = Completes ''cat''"

text \<open>A world in which the first job completes with \<^verbatim>\<open>cat\<close> and every other with \<^verbatim>\<open>dog\<close>.\<close>

definition cat_then_dog :: "job \<Rightarrow> outcome" where
  "cat_then_dog j = (if fst j = 0 then Completes ''cat'' else Completes ''dog'')"

text \<open>Session \<^verbatim>\<open>s\<close> with the uploads \<^verbatim>\<open>a.jpg\<close>, \<^verbatim>\<open>a.png\<close> and no results directory.\<close>

definition same_basename :: filesystem where
  "same_basename = \<lparr>uploads = (\<lambda>_. None)(''s'' \<mapsto> [''a.jpg'', ''a.png'']), results = (\<lambda>_. None)\<rparr>"

text \<open>Session \<^verbatim>\<open>s\<close> with the uploads \<^verbatim>\<open>a.jpg\<close>, \<^verbatim>\<open>notes.md\<close> and no results directory.\<close>

definition one_image :: filesystem where
  "one_image = \<lparr>uploads = (\<lambda>_. None)(''s'' \<mapsto> [''a.jpg'', ''notes.md'']), results = (\<lambda>_. None)\<rparr>"

text \<open>Session \<^verbatim>\<open>s\<close> with the single upload \<^verbatim>\<open>notes.md\<close>.\<close>

definition no_image :: filesystem where
  "no_image = \<lparr>uploads = (\<lambda>_. None)(''s'' \<mapsto> [''notes.md'']), results = (\<lambda>_. None)\<rparr>"

text \<open>Session \<^verbatim>\<open>s\<close> with four uploaded images and no results directory.\<close>

definition four_images :: filesystem where
  "four_images =
     \<lparr>uploads = (\<lambda>_. None)(''s'' \<mapsto> [''a.jpg'', ''b.jpg'', ''c.jpg'', ''d.jpg'']),
      results = (\<lambda>_. None)\<rparr>"

section \<open>Facts about file names\<close>

lemma extname_dot_suffix:
  assumes "s \<noteq> []" and "CHR ''.'' \<notin> set e" and "e \<noteq> []"
  shows "extname (s @ CHR ''.'' # e) = CHR ''.'' # e"
proof -
  let ?p = "s @ CHR ''.'' # e"
  have tw: "takeWhile (\<lambda>c. c \<noteq> CHR ''.'') (rev ?p) = rev e"
    using assms(2) by (auto simp: takeWhile_tail)
  have ne: "?p \<noteq> ''..''"
    using assms by (cases s; cases e) auto
  have "length ?p - Suc (length (rev e)) = length s" by simp
  with tw ne assms(1) show ?thesis
    by (simp add: extname_def Let_def)
qed

lemma extname_cases:
  assumes "extname p \<noteq> []"
  obtains s e where "p = s @ CHR ''.'' # e" and "s \<noteq> []" and "CHR ''.'' \<notin> set e"
    and "extname p = CHR ''.'' # e"
proof -
  let ?t = "takeWhile (\<lambda>c. c \<noteq> CHR ''.'') (rev p)"
  let ?d = "dropWhile (\<lambda>c. c \<noteq> CHR ''.'') (rev p)"
  from assms have dot: "CHR ''.'' \<in> set p" by (auto simp: extname_def split: if_splits)
  then have "?d \<noteq> []" by (auto simp: dropWhile_eq_Nil_conv)
  moreover have "hd ?d = CHR ''.''" using \<open>?d \<noteq> []\<close> hd_dropWhile[of "\<lambda>c. c \<noteq> CHR ''.''" "rev p"] by auto
  ultimately obtain r where r: "?d = CHR ''.'' # r" by (cases ?d) auto
  have "rev p = ?t @ ?d" by simp
  then have "p = rev ?d @ rev ?t" by (metis rev_append rev_rev_ident)
  with r have p: "p = rev r @ CHR ''.'' # rev ?t" by simp
  have nodot: "CHR ''.'' \<notin> set (rev ?t)" by (auto dest: set_takeWhileD)
  have len: "length p - Suc (length ?t) = length (rev r)"
    by (subst p) simp
  from assms dot len have "rev r \<noteq> []" by (auto simp: extname_def Let_def split: if_splits)
  moreover from assms dot len have "extname p = drop (length (rev r)) p"
    by (auto simp: extname_def Let_def split: if_splits)
  then have "extname p = CHR ''.'' # rev ?t" by (subst (asm) (2) p) simp
  ultimately show ?thesis using p nodot that by blast
qed

lemma parse_name_dot_suffix:
  assumes "s \<noteq> []" and "CHR ''.'' \<notin> set e" and "e \<noteq> []"
  shows "parse_name (s @ CHR ''.'' # e) = s"
  by (simp add: parse_name_def extname_dot_suffix[OF assms])

lemma is_caption_txt: "s \<noteq> [] \<Longrightarrow> is_caption (s @ ''.txt'')"
  using extname_dot_suffix[of s "''txt''"] by (simp add: is_caption_def toLowerCase_def lower_char_def upper_letters_def lower_letters_def)

lemma is_image_jpg: "s \<noteq> [] \<Longrightarrow> is_image (s @ ''.jpg'')"
  using extname_dot_suffix[of s "''jpg''"] by (simp add: is_image_def toLowerCase_def lower_char_def upper_letters_def lower_letters_def)

lemma parse_name_nonempty:
  assumes "extname f \<noteq> []" shows "parse_name f \<noteq> []"
proof -
  from assms obtain s e where "f = s @ CHR ''.'' # e" "s \<noteq> []" "extname f = CHR ''.'' # e"
    by (rule extname_cases)
  then show ?thesis by (simp add: parse_name_def)
qed

lemma is_image_extname: "is_image f \<Longrightarrow> extname f \<noteq> []"
  by (auto simp: is_image_def toLowerCase_def)

lemma is_caption_extname: "is_caption f \<Longrightarrow> extname f \<noteq> []"
  by (auto simp: is_caption_def toLowerCase_def)

lemma is_caption_caption_name: "is_image f \<Longrightarrow> is_caption (caption_name f)"
  unfolding caption_name_def by (intro is_caption_txt parse_name_nonempty is_image_extname)

lemma is_image_nonempty: "is_image f \<Longrightarrow> f \<noteq> []"
  by (auto simp: is_image_def toLowerCase_def extname_def)

lemma image_not_caption: "is_image f \<Longrightarrow> \<not> is_caption f"
  by (auto simp: is_image_def is_caption_def)

section \<open>The status endpoint\<close>

lemma bitlen_numeral_simps:
  "bitlen 29 = 5" "bitlen 50 = 6" "bitlen 522417556774977500 = 59" "bitlen 9007199254740992 = 54"
  by (simp_all add: bitlen_def compute_floorlog)

lemma progress_of_29_50: "progress_of 29 50 = 57"
proof -
  have d: "js_div 29 50 = (5224175567749775, - 53)"
    by (simp add: js_div_def round_fraction_def bitlen_numeral_simps Let_def)
  have m: "js_mul (5224175567749775, - 53) 100 = (8162774324609023, - 47)"
    by (simp add: js_mul_def round_fraction_def bitlen_numeral_simps Let_def)
  show ?thesis
    by (simp add: progress_of_def d m Math_floor_def)
qed

lemma progress_of_no_images: "progress_of processed 0 = 0"
  by (simp add: progress_of_def)

lemma progress_of_all_done:
  assumes "0 < n" shows "progress_of n n = 100"
proof -
  have d: "js_div n n = (4503599627370496, - 52)"
    using assms by (simp add: js_div_def round_fraction_def Let_def)
  have b: "bitlen 450359962737049600 = 59" "bitlen 4503599627370496 = 53"
    by (simp_all add: bitlen_def compute_floorlog)
  have m: "js_mul (4503599627370496, - 52) 100 = (7036874417766400, - 46)"
    by (simp add: js_mul_def round_fraction_def b Let_def)
  show ?thesis using assms by (simp add: progress_of_def d m Math_floor_def)
qed

text \<open>
  Claim C4 (progress is \<open>floor (100 * captionFileCount / imageFileCount)\<close>). With 50
  images and 29 caption files the endpoint reports progress 57, while
  \<open>floor (100 * 29 / 50)\<close> is 58: the quotient \<open>29 / 50\<close> is rounded to a binary64 below
  0.58 before it is multiplied by 100, and the product stays below 58.
\<close>

theorem caption_status_at_29_of_50:
  "caption_status half_done ''s'' = StatusResponse 50 29 57 False \<and> (100 * 29) div 50 = (58 :: int)"
proof -
  have img: "image_files (numbered 50 ''.jpg'') = numbered 50 ''.jpg''"
    unfolding image_files_def numbered_def
    by (rule filter_True) (auto simp del: replicate.simps intro!: is_image_jpg)
  have "filter is_caption (numbered 29 ''.txt'') = numbered 29 ''.txt''"
    unfolding numbered_def
    by (rule filter_True) (auto simp del: replicate.simps intro!: is_caption_txt)
  then have cap: "caption_files half_done ''s'' = numbered 29 ''.txt''"
    by (simp add: caption_files_def results_entries_def half_done_def comp_def)
  have len: "length (numbered 50 ''.jpg'') = 50" "length (numbered 29 ''.txt'') = 29"
    by (simp_all add: numbered_def)
  have "caption_status half_done ''s'' = StatusResponse 50 29 (progress_of 29 50) False"
    unfolding caption_status_def cap by (simp add: half_done_def img len)
  then show ?thesis by (simp add: progress_of_29_50)
qed

section \<open>The download packager\<close>

lemma download_all_separate_flat:
  assumes "uploads fs sessionId = Some names"
  shows "download_all fs sessionId (Some ''separate'')
           = Archive (map (\<lambda>f. ''images/'' @ f) (image_files names)
                      @ map (\<lambda>f. ''captions/'' @ f) (caption_files fs sessionId))"
    and "download_all fs sessionId None = download_all fs sessionId (Some ''separate'')"
    and "download_all fs sessionId (Some ''flat'')
           = Archive (image_files names @ caption_files fs sessionId)"
  using assms by (simp_all add: download_all_def Let_def)

lemma paired_entries_without_inherited:
  assumes "\<forall>f\<in>set files. get_property obj (parse_name f) \<noteq> Inherited"
  shows "paired_entries obj archive files
           = Some (archive @ concat (map (\<lambda>f.
               (parse_name f @ ''/'' @ f)
               # (case map_of obj (parse_name f) of
                    Some c \<Rightarrow> if c \<noteq> [] then [parse_name f @ ''/'' @ c] else []
                  | None \<Rightarrow> [])) files))"
  using assms
proof (induction files arbitrary: archive)
  case Nil
  then show ?case by simp
next
  case (Cons f files)
  then show ?case
    by (cases "map_of obj (parse_name f)") (auto simp: get_property_def Let_def split: if_splits)
qed

text \<open>
  Claim C9 (the entries of the archive in the three layouts). In the \<^verbatim>\<open>paired\<close> layout
  an image without a caption whose base name is a property of \<^verbatim>\<open>Object.prototype\<close>
  makes the lookup in \<^verbatim>\<open>captionMap\<close> truthy, \<^verbatim>\<open>path.join\<close> throws, and the request
  ends in a 500 response instead of an archive holding \<^verbatim>\<open>constructor/constructor.jpg\<close>.
\<close>

theorem download_all_paired_reserved_name:
  "download_all reserved_name ''s'' (Some ''paired'') = ErrorResponse 500 ''Error downloading all files''"
proof -
  have img: "is_image ''constructor.jpg''"
    using is_image_jpg[of "''constructor''"] by simp
  have pn: "parse_name ''constructor.jpg'' = ''constructor''"
    using parse_name_dot_suffix[of "''constructor''" "''jpg''"] by simp
  show ?thesis
    by (simp add: download_all_def reserved_name_def image_files_def img caption_files_def
        results_entries_def captionMap_def pn get_property_def object_prototype_properties_def)
qed

section \<open>Facts about strings\<close>

lemma str_includes_sublist: "str_includes hay needle \<longleftrightarrow> sublist needle hay"
proof (induction hay)
  case Nil
  then show ?case by simp
next
  case (Cons c cs)
  show ?case
  proof (cases needle)
    case Nil
    then show ?thesis by simp
  next
    case (Cons n ns)
    with Cons.IH show ?thesis by (simp add: sublist_code)
  qed
qed

lemma str_includes_append: "str_includes hay needle \<Longrightarrow> str_includes (hay @ rest) needle"
  by (auto simp: str_includes_sublist sublist_append)

lemma str_includes_appended: "str_includes (hay @ sep @ needle) needle"
  unfolding str_includes_sublist sublist_def by (rule exI[of _ "hay @ sep"], rule exI[of _ "[]"]) simp

lemma trim_Nil [simp]: "trim [] = []"
  by (simp add: trim_def)

lemma trim_eq_self_iff: "trim s = s \<longleftrightarrow> s = [] \<or> (\<not> is_space (hd s) \<and> \<not> is_space (last s))"
proof (cases "s = []")
  case True
  then show ?thesis by simp
next
  case False
  show ?thesis
  proof (cases "is_space (hd s)")
    case True
    then have "length (dropWhile is_space s) < length s"
      using False by (cases s) (auto simp: le_imp_less_Suc length_dropWhile_le)
    then have "length (trim s) < length s"
      unfolding trim_def using length_dropWhile_le[of is_space "rev (dropWhile is_space s)"]
      by simp
    with True False show ?thesis by auto
  next
    case hd: False
    then have d: "dropWhile is_space s = s" using False by (cases s) auto
    show ?thesis
    proof (cases "is_space (last s)")
      case True
      then have "length (dropWhile is_space (rev s)) < length (rev s)"
        using False by (cases "rev s") (auto simp: le_imp_less_Suc length_dropWhile_le last_rev hd_rev)
      then have "length (trim s) < length s" by (simp add: trim_def d)
      with True False show ?thesis by auto
    next
      case False': False
      then have "dropWhile is_space (rev s) = rev s"
        using False by (cases "rev s") (auto simp: hd_rev)
      with hd False' False show ?thesis by (simp add: trim_def d)
    qed
  qed
qed

lemma trim_trim [simp]: "trim (trim s) = trim s"
proof (cases "trim s = []")
  case True
  then show ?thesis by simp
next
  case False
  let ?d = "dropWhile is_space s"
  let ?r = "dropWhile is_space (rev ?d)"
  from False have r: "?r \<noteq> []" by (simp add: trim_def)
  then have "\<not> is_space (hd ?r)" using hd_dropWhile by blast
  then have l: "\<not> is_space (last (trim s))" using r by (simp add: trim_def last_rev)
  have dne: "?d \<noteq> []"
  proof
    assume "?d = []"
    with r show False by simp
  qed
  then have hd_d: "\<not> is_space (hd ?d)" using hd_dropWhile by blast
  have "suffix ?r (rev ?d)" by (rule suffix_dropWhile)
  then obtain p where "rev ?d = p @ ?r" by (auto simp: suffix_def)
  then have "?d = rev ?r @ rev p" by (metis rev_append rev_rev_ident)
  then have "hd ?d = hd (rev ?r)" using r by (metis hd_append2 rev_is_Nil_conv)
  with hd_d have "\<not> is_space (hd (trim s))" by (simp add: trim_def)
  with l show ?thesis by (simp add: trim_eq_self_iff)
qed

lemma trim_add_tag:
  assumes "trim c = c" and "trim t = t" and "t \<noteq> []"
  shows "trim (c @ '', '' @ t) = c @ '', '' @ t"
proof -
  have "\<not> is_space CHR '',''" by (simp add: is_space_def)
  moreover have "\<not> is_space (last t)" using assms(2,3) by (simp add: trim_eq_self_iff)
  moreover have "c \<noteq> [] \<Longrightarrow> \<not> is_space (hd c)" using assms(1) by (simp add: trim_eq_self_iff)
  ultimately show ?thesis using assms(3)
    by (cases c) (auto simp: trim_eq_self_iff)
qed

section \<open>The global-tag updater\<close>

lemma trim_space_Cons: "is_space w \<Longrightarrow> trim (w # s) = trim s"
  by (simp add: trim_def)

lemma trim_space_snoc:
  assumes "is_space w" shows "trim (s @ [w]) = trim s"
proof (cases "\<forall>c\<in>set s. is_space c")
  case True
  then have a: "dropWhile is_space s = []" by (auto simp: dropWhile_eq_Nil_conv)
  from True assms have b: "dropWhile is_space (s @ [w]) = []" by (auto simp: dropWhile_eq_Nil_conv)
  show ?thesis unfolding trim_def a b by simp
next
  case False
  then obtain c where "c \<in> set s" "\<not> is_space c" by blast
  then have "dropWhile is_space (s @ [w]) = dropWhile is_space s @ [w]"
    by (rule dropWhile_append1)
  with assms show ?thesis by (simp add: trim_def)
qed

lemma split_not_Nil [simp]: "split sep s \<noteq> []"
  by (induction s) auto

lemma split_snoc:
  "w \<noteq> sep \<Longrightarrow> split sep (s @ [w]) = butlast (split sep s) @ [last (split sep s) @ [w]]"
proof (induction s)
  case Nil
  then show ?case by simp
next
  case (Cons c s)
  obtain p ps where r: "split sep s = p # ps" by (cases "split sep s") auto
  from Cons show ?case by (cases ps) (auto simp: r)
qed

lemma map_trim_split_Cons:
  assumes "is_space w" and "w \<noteq> sep"
  shows "map trim (split sep (w # s)) = map trim (split sep s)"
proof -
  obtain p ps where r: "split sep s = p # ps" by (cases "split sep s") auto
  with assms show ?thesis by (simp add: trim_space_Cons)
qed

lemma map_trim_split_snoc:
  assumes "is_space w" and "w \<noteq> sep"
  shows "map trim (split sep (s @ [w])) = map trim (split sep s)"
proof -
  have "map trim (split sep (s @ [w])) = map trim (butlast (split sep s)) @ [trim (last (split sep s))]"
    using assms by (simp add: split_snoc trim_space_snoc)
  also have "\<dots> = map trim (butlast (split sep s) @ [last (split sep s)])"
    by (simp only: map_append list.map)
  also have "butlast (split sep s) @ [last (split sep s)] = split sep s"
    by (rule append_butlast_last_id) simp
  finally show ?thesis .
qed

lemma map_trim_split_dropWhile:
  "\<not> is_space sep \<Longrightarrow> map trim (split sep (dropWhile is_space s)) = map trim (split sep s)"
proof (induction s)
  case Nil
  then show ?case by simp
next
  case (Cons c s)
  show ?case
  proof (cases "is_space c")
    case True
    with Cons have "c \<noteq> sep" by auto
    with True Cons show ?thesis using map_trim_split_Cons[of c sep s] by simp
  next
    case False
    then show ?thesis by simp
  qed
qed

lemma map_trim_split_dropWhile_rev:
  "\<not> is_space sep \<Longrightarrow>
     map trim (split sep (rev (dropWhile is_space (rev s)))) = map trim (split sep s)"
proof (induction s rule: rev_induct)
  case Nil
  then show ?case by simp
next
  case (snoc c s)
  show ?case
  proof (cases "is_space c")
    case True
    with snoc have "c \<noteq> sep" by auto
    with True snoc show ?thesis using map_trim_split_snoc[of c sep s] by simp
  next
    case False
    then show ?thesis by simp
  qed
qed

lemma map_trim_split_trim:
  "\<not> is_space sep \<Longrightarrow> map trim (split sep (trim s)) = map trim (split sep s)"
proof -
  assume sep: "\<not> is_space sep"
  have "trim s = rev (dropWhile is_space (rev (dropWhile is_space s)))" by (simp add: trim_def)
  then have "map trim (split sep (trim s)) = map trim (split sep (dropWhile is_space s))"
    using map_trim_split_dropWhile_rev[OF sep, of "dropWhile is_space s"] by simp
  then show ?thesis using map_trim_split_dropWhile[OF sep, of s] by simp
qed

lemma tagsToAdd_spec_tags: "tagsToAdd globalTags = spec_tags globalTags"
proof -
  have "\<not> is_space CHR '',''" by (simp add: is_space_def)
  then show ?thesis by (simp add: tagsToAdd_def spec_tags_def map_trim_split_trim)
qed

lemma tagsToAdd_trimmed: "t \<in> set (tagsToAdd globalTags) \<Longrightarrow> trim t = t \<and> t \<noteq> []"
  by (auto simp: tagsToAdd_def)

lemma trim_add_tag_fixed:
  "trim c = c \<Longrightarrow> trim t = t \<Longrightarrow> t \<noteq> [] \<Longrightarrow> trim (add_tag c t) = add_tag c t"
  using trim_add_tag[of c t] by (simp add: add_tag_def)

lemma str_includes_add_tag: "str_includes (add_tag c t) t"
  using str_includes_appended[of c "'', ''" t] by (simp add: add_tag_def)

lemma str_includes_add_tag_keeps: "str_includes c x \<Longrightarrow> str_includes (add_tag c t) x"
  by (simp add: add_tag_def str_includes_append)

lemma prefix_add_tag: "prefix c (add_tag c t)"
  by (simp add: add_tag_def)

lemma foldl_add_tag_spec_append: "foldl add_tag c ts = spec_append c ts"
  by (induction ts arbitrary: c) (simp_all add: add_tag_def str_includes_sublist)

lemma foldl_add_tag_trimmed:
  "trim c = c \<Longrightarrow> \<forall>t\<in>set ts. trim t = t \<and> t \<noteq> [] \<Longrightarrow> trim (foldl add_tag c ts) = foldl add_tag c ts"
  by (induction ts arbitrary: c) (simp_all add: trim_add_tag_fixed)

lemma foldl_add_tag_keeps: "str_includes c t \<Longrightarrow> str_includes (foldl add_tag c ts) t"
  by (induction ts arbitrary: c) (simp_all add: str_includes_add_tag_keeps)

lemma foldl_add_tag_includes: "t \<in> set ts \<Longrightarrow> str_includes (foldl add_tag c ts) t"
proof (induction ts arbitrary: c)
  case Nil
  then show ?case by simp
next
  case (Cons a ts)
  show ?case
  proof (cases "t = a")
    case True
    then show ?thesis by (simp add: foldl_add_tag_keeps str_includes_add_tag)
  next
    case False
    with Cons show ?thesis by simp
  qed
qed

lemma foldl_add_tag_fixed: "\<forall>t\<in>set ts. str_includes c t \<Longrightarrow> foldl add_tag c ts = c"
  by (induction ts) (simp_all add: add_tag_def)

lemma update_caption_idem:
  "update_caption globalTags (update_caption globalTags content) = update_caption globalTags content"
proof -
  let ?ts = "tagsToAdd globalTags"
  let ?c = "foldl add_tag (trim content) ?ts"
  have "trim ?c = ?c"
    by (rule foldl_add_tag_trimmed) (simp_all add: tagsToAdd_trimmed)
  moreover have "foldl add_tag ?c ?ts = ?c"
    by (rule foldl_add_tag_fixed) (simp add: foldl_add_tag_includes)
  ultimately show ?thesis by (simp add: update_caption_def)
qed

lemma prefix_foldl_add_tag: "prefix c (foldl add_tag c ts)"
proof (induction ts arbitrary: c)
  case Nil
  then show ?case by simp
next
  case (Cons a ts)
  have "prefix c (add_tag c a)" by (rule prefix_add_tag)
  also have "prefix (add_tag c a) (foldl add_tag (add_tag c a) ts)" by (rule Cons.IH)
  finally show ?case by simp
qed

lemma foldl_update_file_no_fault:
  assumes "\<forall>f\<in>set files. io f = NoFault" and "set files \<subseteq> fst ` set dir"
  shows "\<exists>dir'.
           foldl (update_file io g) (dir, updated, errors) files
             = (dir', updated @ map (\<lambda>f. (f, update_caption g (the (map_of dir f)))) files, errors)
           \<and> map fst dir' = map fst dir
           \<and> (\<forall>n. map_of dir' n
                  = (if n \<in> set files then map_option (update_caption g) (map_of dir n)
                     else map_of dir n))"
  using assms
proof (induction files arbitrary: dir updated)
  case Nil
  then show ?case by simp
next
  case (Cons f files)
  from Cons.prems obtain c where c: "map_of dir f = Some c"
    by (cases "map_of dir f") (auto simp: map_of_eq_None_iff)
  let ?U = "update_caption g"
  let ?d1 = "AList.update f (?U c) dir"
  have step: "update_file io g (dir, updated, errors) f = (?d1, updated @ [(f, ?U c)], errors)"
    using Cons.prems(1) c by (simp add: update_file_def Let_def)
  have keys: "map fst ?d1 = map fst dir"
    using Cons.prems(2) by (simp add: update_keys)
  have mo: "map_of ?d1 = (map_of dir)(f \<mapsto> ?U c)" by (rule update_conv')
  from Cons.prems keys have "set files \<subseteq> fst ` set ?d1"
    by (metis list.set_map set_subset_Cons subset_trans)
  with Cons.IH[of ?d1 "updated @ [(f, ?U c)]"] Cons.prems(1)
  obtain dir' where
    run: "foldl (update_file io g) (?d1, updated @ [(f, ?U c)], errors) files
            = (dir', (updated @ [(f, ?U c)]) @ map (\<lambda>f'. (f', ?U (the (map_of ?d1 f')))) files, errors)"
    and k: "map fst dir' = map fst ?d1"
    and m: "\<forall>n. map_of dir' n = (if n \<in> set files then map_option ?U (map_of ?d1 n) else map_of ?d1 n)"
    by auto
  have same: "?U (the (map_of ?d1 f')) = ?U (the (map_of dir f'))" for f'
    by (simp add: mo c update_caption_idem)
  have "\<forall>n. map_of dir' n = (if n \<in> set (f # files) then map_option ?U (map_of dir n) else map_of dir n)"
    using m by (auto simp: mo c update_caption_idem)
  with run k keys step same c show ?case by simp
qed

lemma foldl_update_file_fixed:
  assumes "\<forall>f\<in>set files. \<exists>c. map_of dir f = Some c \<and> update_caption g c = c"
  shows "\<exists>updated' errors'. foldl (update_file io g) (dir, updated, errors) files = (dir, updated', errors')"
  using assms
proof (induction files arbitrary: updated errors)
  case Nil
  then show ?case by simp
next
  case (Cons f files)
  from Cons.prems obtain c where c: "map_of dir f = Some c" "update_caption g c = c" by auto
  then have "AList.update f c dir = dir" by (simp add: update_triv)
  with c have "\<exists>u e. update_file io g (dir, updated, errors) f = (dir, u, e)"
    by (cases "io f") (simp_all add: update_file_def Let_def)
  then obtain u e where "update_file io g (dir, updated, errors) f = (dir, u, e)" by blast
  moreover from Cons.IH[of u e] Cons.prems
  obtain u' e' where "foldl (update_file io g) (dir, u, e) files = (dir, u', e')" by auto
  ultimately show ?case by simp
qed

lemma caption_files_subset:
  "results fs sessionId = Some dir \<Longrightarrow> set (caption_files fs sessionId) \<subseteq> fst ` set dir"
  by (auto simp: caption_files_def results_entries_def)

lemma add_global_tags_run:
  assumes "sessionId \<noteq> []" and "trim globalTags \<noteq> []"
    and "results fs sessionId = Some dir" and "caption_files fs sessionId \<noteq> []"
    and "\<forall>file\<in>set (caption_files fs sessionId). io file = NoFault"
  shows "\<exists>dir'.
      add_global_tags io fs sessionId globalTags
        = (TagsResponse
             (map (\<lambda>file. (file, update_caption globalTags (the (map_of dir file))))
                (caption_files fs sessionId)) [],
           fs\<lparr>results := (results fs)(sessionId \<mapsto> dir')\<rparr>)
      \<and> map fst dir' = map fst dir
      \<and> (\<forall>n. map_of dir' n
             = (if n \<in> set (caption_files fs sessionId)
                then map_option (update_caption globalTags) (map_of dir n)
                else map_of dir n))"
proof -
  let ?files = "caption_files fs sessionId"
  have files: "?files = filter is_caption (map fst dir)"
    using assms(3) by (simp add: caption_files_def results_entries_def)
  have sub: "set ?files \<subseteq> fst ` set dir"
    using assms(3) by (rule caption_files_subset)
  from foldl_update_file_no_fault[OF assms(5) sub, of globalTags "[]" "[]"]
  obtain dir' where
    run: "foldl (update_file io globalTags) (dir, [], []) ?files
            = (dir', map (\<lambda>f. (f, update_caption globalTags (the (map_of dir f)))) ?files, [])"
    and rest: "map fst dir' = map fst dir"
      "\<forall>n. map_of dir' n
             = (if n \<in> set ?files then map_option (update_caption globalTags) (map_of dir n)
                else map_of dir n)"
    by auto
  have ne: "globalTags \<noteq> []" using assms(2) by auto
  have "add_global_tags io fs sessionId globalTags
          = (TagsResponse (map (\<lambda>f. (f, update_caption globalTags (the (map_of dir f)))) ?files) [],
             fs\<lparr>results := (results fs)(sessionId \<mapsto> dir')\<rparr>)"
    using assms(1,2,3,4) ne run unfolding add_global_tags_def files by (simp add: Let_def)
  with rest show ?thesis by blast
qed

lemma add_global_tags_blank_tags:
  "add_global_tags io one_caption ''s'' [CHR 0xA0, CHR '' '', CHR 0x09]
     = (ErrorResponse 400 ''Global tags are required'', one_caption)"
  by (simp add: add_global_tags_def trim_def is_space_def)

text \<open>
  Claim C2: for a session whose results directory holds at least one caption file and a
  tag string that is not blank, the tag update splits the string on commas, trims the
  pieces and drops the empty ones, and rewrites each caption file to its trimmed content
  followed by \<^verbatim>\<open>, <tag>\<close> for each tag, in order, that is not already a contiguous part
  of the content as it stands; the other entries of the directory keep their content,
  and the response lists every caption file with its new content and no error.
\<close>

theorem add_global_tags_appends_missing_tags:
  assumes "sessionId \<noteq> []" and "trim globalTags \<noteq> []"
    and "results fs sessionId = Some dir" and "caption_files fs sessionId \<noteq> []"
    and "\<forall>file\<in>set (caption_files fs sessionId). io file = NoFault"
  shows "\<exists>dir'.
      add_global_tags io fs sessionId globalTags
        = (TagsResponse
             (map (\<lambda>file. (file, spec_append (trim (the (map_of dir file))) (spec_tags globalTags)))
                (caption_files fs sessionId)) [],
           fs\<lparr>results := (results fs)(sessionId \<mapsto> dir')\<rparr>)
      \<and> map fst dir' = map fst dir
      \<and> (\<forall>file content. map_of dir file = Some content \<longrightarrow>
             map_of dir' file
               = Some (if is_caption file then spec_append (trim content) (spec_tags globalTags)
                       else content))"
proof -
  have U: "update_caption globalTags c = spec_append (trim c) (spec_tags globalTags)" for c
    by (simp add: update_caption_def foldl_add_tag_spec_append tagsToAdd_spec_tags)
  from add_global_tags_run[OF assms] obtain dir' where
    run: "add_global_tags io fs sessionId globalTags
        = (TagsResponse
             (map (\<lambda>file. (file, update_caption globalTags (the (map_of dir file))))
                (caption_files fs sessionId)) [],
           fs\<lparr>results := (results fs)(sessionId \<mapsto> dir')\<rparr>)"
    and keys: "map fst dir' = map fst dir"
    and m: "\<forall>n. map_of dir' n
             = (if n \<in> set (caption_files fs sessionId)
                then map_option (update_caption globalTags) (map_of dir n)
                else map_of dir n)"
    by blast
  have "map_of dir' file
          = Some (if is_caption file then spec_append (trim content) (spec_tags globalTags) else content)"
    if "map_of dir file = Some content" for "file" content
  proof -
    from that have "(file, content) \<in> set dir" by (rule map_of_SomeD)
    then have "file \<in> fst ` set dir" by force
    then have "file \<in> set (caption_files fs sessionId) \<longleftrightarrow> is_caption file"
      using assms(3) by (auto simp: caption_files_def results_entries_def)
    with m that show ?thesis by (simp add: U)
  qed
  with run keys show ?thesis unfolding U by blast
qed

theorem add_global_tags_appends_missing_tags_witness:
  "add_global_tags (\<lambda>_. NoFault) one_caption ''s'' ''a, b''
     = (TagsResponse [(''x.txt'', ''a, b'')] [],
        one_caption\<lparr>results := (results one_caption)(''s'' \<mapsto> [(''x.txt'', ''a, b'')])\<rparr>)"
proof -
  have cap: "is_caption ''x.txt''" using is_caption_txt[of "''x''"] by simp
  have files: "caption_files one_caption ''s'' = [''x.txt'']"
    by (simp add: caption_files_def results_entries_def one_caption_def cap)
  have tr: "trim ''a, b'' = ''a, b''" "trim ''a'' = ''a''" "trim '' b'' = ''b''" "trim ''b'' = ''b''"
    by (simp_all add: trim_def is_space_def)
  have tags: "spec_tags ''a, b'' = [''a'', ''b'']"
    by (simp add: spec_tags_def tr)
  have new: "spec_append (trim ''a'') (spec_tags ''a, b'') = ''a, b''"
    by (simp add: tags tr sublist_code)
  have h1: "''s'' \<noteq> []" by simp
  have h2: "trim ''a, b'' \<noteq> []" by (simp add: tr)
  have h3: "results one_caption ''s'' = Some [(''x.txt'', ''a'')]" by (simp add: one_caption_def)
  have h4: "caption_files one_caption ''s'' \<noteq> []" by (simp add: files)
  have h5: "\<forall>file\<in>set (caption_files one_caption ''s''). (\<lambda>_. NoFault) file = NoFault" by simp
  from add_global_tags_appends_missing_tags[OF h1 h2 h3 h4 h5]
  obtain dir' where
    run: "add_global_tags (\<lambda>_. NoFault) one_caption ''s'' ''a, b''
        = (TagsResponse
             (map (\<lambda>file. (file, spec_append (trim (the (map_of [(''x.txt'', ''a'')] file))) (spec_tags ''a, b'')))
                (caption_files one_caption ''s'')) [],
           one_caption\<lparr>results := (results one_caption)(''s'' \<mapsto> dir')\<rparr>)"
    and keys: "map fst dir' = map fst [(''x.txt'', ''a'')]"
    and m: "\<forall>file content. map_of [(''x.txt'', ''a'')] file = Some content \<longrightarrow>
             map_of dir' file
               = Some (if is_caption file then spec_append (trim content) (spec_tags ''a, b'')
                       else content)"
    by blast
  from m have m': "map_of dir' ''x.txt'' = Some ''a, b''"
    using new cap by simp
  from run have run': "add_global_tags (\<lambda>_. NoFault) one_caption ''s'' ''a, b''
        = (TagsResponse [(''x.txt'', ''a, b'')] [],
           one_caption\<lparr>results := (results one_caption)(''s'' \<mapsto> dir')\<rparr>)"
    using new by (simp add: files)
  from keys obtain v where "dir' = [(''x.txt'', v)]" by (cases dir') auto
  with m' have "dir' = [(''x.txt'', ''a, b'')]" by simp
  with run' show ?thesis by simp
qed

lemma add_global_tags_rejected:
  assumes "sessionId = [] \<or> trim globalTags = [] \<or> results fs sessionId = None
             \<or> caption_files fs sessionId = []"
  shows "\<exists>status msg. \<forall>io. add_global_tags io fs sessionId globalTags = (ErrorResponse status msg, fs)"
proof (cases "sessionId = [] \<or> trim globalTags = []")
  case True
  then show ?thesis by (auto simp: add_global_tags_def)
next
  case False
  show ?thesis
  proof (cases "results fs sessionId")
    case None
    with False show ?thesis by (auto simp: add_global_tags_def)
  next
    case (Some dir)
    with assms False have "filter is_caption (map fst dir) = []"
      by (simp add: caption_files_def results_entries_def)
    with False Some show ?thesis by (auto simp: add_global_tags_def)
  qed
qed

lemma one_caption_run:
  "add_global_tags (\<lambda>_. NoFault) one_caption ''s'' ''a, b''
     = (TagsResponse [(''x.txt'', ''a, b'')] [],
        one_caption\<lparr>results := (results one_caption)(''s'' \<mapsto> [(''x.txt'', ''a, b'')])\<rparr>)"
proof -
  have cap: "is_caption ''x.txt''" using is_caption_txt[of "''x''"] by simp
  have tr: "trim ''a, b'' = ''a, b''" "trim ''a'' = ''a''" "trim '' b'' = ''b''" "trim ''b'' = ''b''"
    by (simp_all add: trim_def is_space_def)
  have new: "update_caption ''a, b'' ''a'' = ''a, b''"
    by (simp add: update_caption_def tagsToAdd_def tr add_tag_def)
  show ?thesis
    by (simp add: add_global_tags_def one_caption_def cap tr update_file_def new Let_def)
qed

text \<open>
  Claim C3: the tag update is idempotent. After a first run in which no read or write
  failed, a second run with the same tag string leaves every file of the session as the
  first run left it, whatever happens to its reads and writes; when none of them fails
  either, it also returns the response of the first run.
\<close>

theorem add_global_tags_idempotent:
  assumes "\<forall>file\<in>set (caption_files fs sessionId). io file = NoFault"
    and "add_global_tags io fs sessionId globalTags = (response, fs')"
  shows "snd (add_global_tags io' fs' sessionId globalTags) = fs'
       \<and> ((\<forall>file\<in>set (caption_files fs' sessionId). io' file = NoFault) \<longrightarrow>
            add_global_tags io' fs' sessionId globalTags = (response, fs'))"
proof (cases "sessionId = [] \<or> trim globalTags = [] \<or> results fs sessionId = None
                \<or> caption_files fs sessionId = []")
  case True
  from add_global_tags_rejected[OF True] obtain status msg where
    r: "\<forall>io. add_global_tags io fs sessionId globalTags = (ErrorResponse status msg, fs)" by blast
  with assms(2) have "fs' = fs" "response = ErrorResponse status msg" by auto
  with r show ?thesis by simp
next
  case False
  then obtain dir where dir: "results fs sessionId = Some dir" by auto
  let ?files = "caption_files fs sessionId"
  let ?U = "update_caption globalTags"
  from False dir add_global_tags_run[of sessionId globalTags fs dir io] assms(1)
  obtain dir' where
    run: "add_global_tags io fs sessionId globalTags
            = (TagsResponse (map (\<lambda>f. (f, ?U (the (map_of dir f)))) ?files) [],
               fs\<lparr>results := (results fs)(sessionId \<mapsto> dir')\<rparr>)"
    and keys: "map fst dir' = map fst dir"
    and m: "\<forall>n. map_of dir' n = (if n \<in> set ?files then map_option ?U (map_of dir n) else map_of dir n)"
    by blast
  from run assms(2) have fs': "fs' = fs\<lparr>results := (results fs)(sessionId \<mapsto> dir')\<rparr>"
    and resp: "response = TagsResponse (map (\<lambda>f. (f, ?U (the (map_of dir f)))) ?files) []"
    by simp_all
  have res': "results fs' sessionId = Some dir'" by (simp add: fs')
  have files': "caption_files fs' sessionId = ?files"
    using dir keys by (simp add: fs' caption_files_def results_entries_def)
  have sub: "set ?files \<subseteq> fst ` set dir" using dir by (rule caption_files_subset)
  have fixed: "\<exists>c. map_of dir' f = Some c \<and> ?U c = c" if "f \<in> set ?files" for f
  proof -
    from that sub obtain c where "map_of dir f = Some c"
      by (cases "map_of dir f") (auto simp: map_of_eq_None_iff)
    with m that show ?thesis by (simp add: update_caption_idem)
  qed
  have same_fs: "fs'\<lparr>results := (results fs')(sessionId \<mapsto> dir')\<rparr> = fs'" by (simp add: fs')
  have guards: "sessionId \<noteq> []" "globalTags \<noteq> []" "trim globalTags \<noteq> []"
    "filter is_caption (map fst dir') \<noteq> []"
    using False keys dir by (auto simp: caption_files_def results_entries_def)
  have flt: "filter is_caption (map fst dir') = ?files"
    using keys dir by (simp add: caption_files_def results_entries_def)
  from foldl_update_file_fixed[of ?files dir' globalTags io' "[]" "[]"] fixed
  obtain u e where second: "foldl (update_file io' globalTags) (dir', [], []) ?files = (dir', u, e)"
    by blast
  have "add_global_tags io' fs' sessionId globalTags = (TagsResponse u e, fs')"
    using guards second res' same_fs by (simp add: add_global_tags_def flt)
  then have first: "snd (add_global_tags io' fs' sessionId globalTags) = fs'" by simp
  have "add_global_tags io' fs' sessionId globalTags = (response, fs')"
    if nf: "\<forall>file\<in>set (caption_files fs' sessionId). io' file = NoFault"
  proof -
    from False res' files' have g: "sessionId \<noteq> []" "trim globalTags \<noteq> []"
      "caption_files fs' sessionId \<noteq> []" by auto
    from add_global_tags_run[OF g(1,2) res' g(3) nf]
    obtain dir'' where
      run2: "add_global_tags io' fs' sessionId globalTags
            = (TagsResponse (map (\<lambda>f. (f, ?U (the (map_of dir' f)))) ?files) [],
               fs'\<lparr>results := (results fs')(sessionId \<mapsto> dir'')\<rparr>)"
      unfolding files' by blast
    have "map (\<lambda>f. (f, ?U (the (map_of dir' f)))) ?files = map (\<lambda>f. (f, ?U (the (map_of dir f)))) ?files"
    proof (rule map_cong[OF refl])
      fix f assume f: "f \<in> set ?files"
      with sub obtain c where "map_of dir f = Some c"
        by (cases "map_of dir f") (auto simp: map_of_eq_None_iff)
      with m f show "(f, ?U (the (map_of dir' f))) = (f, ?U (the (map_of dir f)))"
        by (simp add: update_caption_idem)
    qed
    with run2 first resp show ?thesis by (metis prod.collapse fst_conv snd_conv)
  qed
  with first show ?thesis by blast
qed

theorem add_global_tags_idempotent_witness:
  "snd (add_global_tags (\<lambda>_. NoFault)
          (one_caption\<lparr>results := (results one_caption)(''s'' \<mapsto> [(''x.txt'', ''a, b'')])\<rparr>) ''s'' ''a, b'')
     = one_caption\<lparr>results := (results one_caption)(''s'' \<mapsto> [(''x.txt'', ''a, b'')])\<rparr>"
proof -
  have h: "\<forall>file\<in>set (caption_files one_caption ''s''). (\<lambda>_. NoFault) file = NoFault" by simp
  from add_global_tags_idempotent[OF h one_caption_run]
  show ?thesis by blast
qed

section \<open>The caption endpoints\<close>

lemma results_entries_ensureDir [simp]:
  "results_entries (ensureDir fs sessionId) sessionId = results_entries fs sessionId"
  by (simp add: results_entries_def ensureDir_def split: option.splits)

lemma uploads_ensureDir [simp]: "uploads (ensureDir fs sessionId) = uploads fs"
  by (simp add: ensureDir_def split: option.splits)

lemma results_ensureDir_other:
  "s \<noteq> sessionId \<Longrightarrow> results (ensureDir fs sessionId) s = results fs s"
  by (simp add: ensureDir_def split: option.splits)

lemma caption_files_ensureDir [simp]:
  "caption_files (ensureDir fs sessionId) sessionId = caption_files fs sessionId"
  by (simp add: caption_files_def)

text \<open>
  Claim C7: called with a session id and an API key, the generate endpoint answers 404
  when the upload directory of the session is absent, and 400 when the directory holds
  no qualifying image; either way no request is issued, the file system keeps every
  entry it had, and at most the empty results directory of the session is created.
\<close>

theorem generate_rejects_missing_session_and_empty_session:
  assumes "sessionId \<noteq> []" and "apiKey \<noteq> []"
  shows "(uploads fs sessionId = None \<longrightarrow>
            generate pick env fs sessionId apiKey globalTags
              = (ErrorResponse 404 ''Session not found'', fs, []))
       \<and> (\<forall>names. uploads fs sessionId = Some names \<and> image_files names = [] \<longrightarrow>
            generate pick env fs sessionId apiKey globalTags
              = (ErrorResponse 400 ''No image files found in session'', ensureDir fs sessionId, [])
            \<and> results_entries (ensureDir fs sessionId) sessionId = results_entries fs sessionId
            \<and> caption_files (ensureDir fs sessionId) sessionId = caption_files fs sessionId
            \<and> uploads (ensureDir fs sessionId) = uploads fs
            \<and> (\<forall>s. s \<noteq> sessionId \<longrightarrow> results (ensureDir fs sessionId) s = results fs s))"
  using assms by (auto simp: generate_def Let_def results_ensureDir_other)

theorem generate_rejects_missing_session_and_empty_session_witness:
  "generate (\<lambda>_. 0) (\<lambda>_. Completes ''cat'') one_caption ''s'' ''key'' []
     = (ErrorResponse 404 ''Session not found'', one_caption, [])
   \<and> generate (\<lambda>_. 0) (\<lambda>_. Completes ''cat'') no_image ''s'' ''key'' []
     = (ErrorResponse 400 ''No image files found in session'', ensureDir no_image ''s'', [])"
proof -
  have h: "''s'' \<noteq> []" "''key'' \<noteq> []" by simp_all
  have "uploads one_caption ''s'' = None" by (simp add: one_caption_def)
  moreover have "uploads no_image ''s'' = Some [''notes.md''] \<and> image_files [''notes.md''] = []"
    by (simp add: no_image_def image_files_def is_image_def extname_def toLowerCase_def lower_char_def upper_letters_def lower_letters_def)
  ultimately show ?thesis
    using generate_rejects_missing_session_and_empty_session[OF h, of one_caption "\<lambda>_. 0" "\<lambda>_. Completes ''cat''" "[]"]
      generate_rejects_missing_session_and_empty_session[OF h, of no_image "\<lambda>_. 0" "\<lambda>_. Completes ''cat''" "[]"]
    by blast
qed

subsection \<open>Groups\<close>

lemma concat_slices: "0 < n \<Longrightarrow> concat (slices n i xs) = drop i xs"
proof (induction n i xs rule: slices.induct)
  case (1 n i xs)
  show ?case
  proof (cases "i < length xs")
    case True
    with 1 have "concat (slices n i xs) = take n (drop i xs) @ drop (i + n) xs"
      by (simp add: slices.simps[of n i xs])
    also have "\<dots> = drop i xs"
      by (metis append_take_drop_id drop_drop add.commute)
    finally show ?thesis .
  next
    case False
    then show ?thesis by (simp add: slices.simps[of n i xs])
  qed
qed

lemma slices_sizes:
  "0 < n \<Longrightarrow> grp \<in> set (slices n i xs) \<Longrightarrow> 0 < length grp \<and> length grp \<le> n"
proof (induction n i xs rule: slices.induct)
  case (1 n i xs)
  show ?case
  proof (cases "i < length xs")
    case True
    with 1 show ?thesis by (auto simp: slices.simps[of n i xs])
  next
    case False
    with 1 show ?thesis by (simp add: slices.simps[of n i xs])
  qed
qed

lemma slices_full:
  "0 < n \<Longrightarrow> grp \<in> set (butlast (slices n i xs)) \<Longrightarrow> length grp = n"
proof (induction n i xs rule: slices.induct)
  case (1 n i xs)
  show ?case
  proof (cases "i < length xs")
    case True
    note lt = this
    show ?thesis
    proof (cases "slices n (i + n) xs = []")
      case True
      with lt 1 show ?thesis by (simp add: slices.simps[of n i xs])
    next
      case False
      then have "i + n < length xs" by (auto simp: slices.simps[of n "i + n" xs] split: if_splits)
      then have "length (take n (drop i xs)) = n" by simp
      with lt 1 False show ?thesis by (auto simp: slices.simps[of n i xs])
    qed
  next
    case False
    with 1 show ?thesis by (simp add: slices.simps[of n i xs])
  qed
qed

subsection \<open>One group\<close>

lemma mset_remove_nth:
  "i < length xs \<Longrightarrow> mset (xs ! i # take i xs @ drop (Suc i) xs) = mset xs"
proof -
  assume "i < length xs"
  then have "xs = take i xs @ xs ! i # drop (Suc i) xs" by (rule id_take_nth_drop)
  then have "mset xs = mset (take i xs @ xs ! i # drop (Suc i) xs)" by simp
  then show ?thesis by simp
qed

lemma run_pending_foldl:
  "\<exists>order. mset order = mset pending
     \<and> run_pending pick env globalTags st pending = foldl (settle env globalTags) st order"
proof (induction pick env globalTags st pending rule: run_pending.induct)
  case (1 pick env globalTags st)
  show ?case by (rule exI[of _ "[]"]) simp
next
  case (2 pick env globalTags st j js)
  let ?i = "pick (j # js) mod length (j # js)"
  let ?x = "(j # js) ! ?i"
  let ?rest = "take ?i (j # js) @ drop (Suc ?i) (j # js)"
  have lt: "?i < length (j # js)" by simp
  from 2[OF refl] obtain order where
    o: "mset order = mset ?rest"
    and r: "run_pending pick env globalTags (settle env globalTags st ?x) ?rest
              = foldl (settle env globalTags) (settle env globalTags st ?x) order"
    by blast
  have "mset (?x # order) = mset (j # js)"
    using o mset_remove_nth[OF lt] by simp
  moreover have "run_pending pick env globalTags st (j # js) = foldl (settle env globalTags) st (?x # order)"
    using r by (simp add: Let_def)
  ultimately show ?case by blast
qed

lemma written_thrown: "written out = None \<longleftrightarrow> thrown out \<noteq> None"
  by (cases out) (simp_all add: written_def thrown_def)

lemma successes_simps [simp]:
  "successes env g [] = []"
  "successes env g (xs @ ys) = successes env g xs @ successes env g ys"
  by (simp_all add: successes_def map_filter_def)

lemma failures_simps [simp]:
  "failures env [] = []"
  "failures env (xs @ ys) = failures env xs @ failures env ys"
  by (simp_all add: failures_def map_filter_def)

lemma settle_eq:
  "settle env g st j
     = st\<lparr>entries := write_caption env g (entries st) j,
          out_results := out_results st @ successes env g [j],
          out_errors := out_errors st @ failures env [j],
          events := events st @ [Settled j]\<rparr>"
  by (cases "env j")
    (simp_all add: settle_def record_error_def write_caption_def successes_def failures_def
      map_filter_def written_def thrown_def Let_def)

lemma foldl_settle_eq:
  "foldl (settle env g) st order
     = st\<lparr>entries := foldl (write_caption env g) (entries st) order,
          out_results := out_results st @ successes env g order,
          out_errors := out_errors st @ failures env order,
          events := events st @ map Settled order\<rparr>"
proof (induction order arbitrary: st)
  case Nil
  then show ?case by simp
next
  case (Cons j order)
  have "successes env g (j # order) = successes env g [j] @ successes env g order"
    using successes_simps(2)[of env g "[j]" order] by simp
  moreover have "failures env (j # order) = failures env [j] @ failures env order"
    using failures_simps(2)[of env "[j]" order] by simp
  moreover have "foldl (settle env g) st (j # order) = foldl (settle env g) (settle env g st j) order"
    by simp
  ultimately show ?case
    by (simp only: Cons.IH[of "settle env g st j"]) (simp add: settle_eq[of env g st j])
qed

lemma process_group_eq:
  "\<exists>order. mset order = mset grp
     \<and> process_group pick env g st grp
         = st\<lparr>entries := foldl (write_caption env g) (entries st) order,
              out_results := out_results st @ successes env g order,
              out_errors := out_errors st @ failures env order,
              events := events st @ map Issued grp @ map Settled order\<rparr>"
proof -
  from run_pending_foldl[of grp pick env g "st\<lparr>events := events st @ map Issued grp\<rparr>"]
  obtain order where "mset order = mset grp"
    and "process_group pick env g st grp
           = foldl (settle env g) (st\<lparr>events := events st @ map Issued grp\<rparr>) order"
    unfolding process_group_def by blast
  then show ?thesis by (auto simp: foldl_settle_eq intro!: exI[of _ order])
qed

lemma group_events_simps [simp]:
  "group_events [] [] = []"
  "group_events (grp # groups) (order # orders)
     = map Issued grp @ map Settled order @ group_events groups orders"
  by (simp_all add: group_events_def)

lemma foldl_process_group_eq:
  "\<exists>orders. list_all2 (\<lambda>order grp. mset order = mset grp) orders groups
     \<and> foldl (process_group pick env g) st groups
         = st\<lparr>entries := foldl (write_caption env g) (entries st) (concat orders),
              out_results := out_results st @ successes env g (concat orders),
              out_errors := out_errors st @ failures env (concat orders),
              events := events st @ group_events groups orders\<rparr>"
proof (induction groups arbitrary: st)
  case Nil
  show ?case by (rule exI[of _ "[]"]) simp
next
  case (Cons grp groups)
  from process_group_eq[of grp pick env g st] obtain order where
    o: "mset order = mset grp"
    and p: "process_group pick env g st grp
         = st\<lparr>entries := foldl (write_caption env g) (entries st) order,
              out_results := out_results st @ successes env g order,
              out_errors := out_errors st @ failures env order,
              events := events st @ map Issued grp @ map Settled order\<rparr>" (is "_ = ?st1")
    by blast
  from Cons.IH[of ?st1] obtain orders where
    os: "list_all2 (\<lambda>order grp. mset order = mset grp) orders groups"
    and q: "foldl (process_group pick env g) ?st1 groups
         = ?st1\<lparr>entries := foldl (write_caption env g) (entries ?st1) (concat orders),
              out_results := out_results ?st1 @ successes env g (concat orders),
              out_errors := out_errors ?st1 @ failures env (concat orders),
              events := events ?st1 @ group_events groups orders\<rparr>"
    by blast
  show ?case
  proof (intro exI[of _ "order # orders"] conjI)
    show "list_all2 (\<lambda>order grp. mset order = mset grp) (order # orders) (grp # groups)"
      using o os by simp
    show "foldl (process_group pick env g) st (grp # groups)
         = st\<lparr>entries := foldl (write_caption env g) (entries st) (concat (order # orders)),
              out_results := out_results st @ successes env g (concat (order # orders)),
              out_errors := out_errors st @ failures env (concat (order # orders)),
              events := events st @ group_events (grp # groups) (order # orders)\<rparr>"
      by (simp add: p q)
  qed
qed

lemma mset_concat_orders:
  "list_all2 (\<lambda>order grp. mset order = mset grp) orders groups \<Longrightarrow>
     mset (concat orders) = mset (concat groups)"
  by (induction orders groups rule: list_all2_induct) simp_all

lemma caption_run_eq:
  assumes "0 < n"
  shows "\<exists>orders. list_all2 (\<lambda>order grp. mset order = mset grp) orders (slices n 0 (enumerate 0 files))
     \<and> mset (concat orders) = mset (enumerate 0 files)
     \<and> caption_run pick env g n dir files
         = \<lparr>entries = foldl (write_caption env g) dir (concat orders),
            out_results = successes env g (concat orders),
            out_errors = failures env (concat orders),
            events = group_events (slices n 0 (enumerate 0 files)) orders\<rparr>"
proof -
  let ?groups = "slices n 0 (enumerate 0 files)"
  let ?st = "\<lparr>entries = dir, out_results = [], out_errors = [], events = []\<rparr>"
  from foldl_process_group_eq[of ?groups pick env g ?st] obtain orders where
    os: "list_all2 (\<lambda>order grp. mset order = mset grp) orders ?groups"
    and r: "foldl (process_group pick env g) ?st ?groups
         = ?st\<lparr>entries := foldl (write_caption env g) (entries ?st) (concat orders),
              out_results := out_results ?st @ successes env g (concat orders),
              out_errors := out_errors ?st @ failures env (concat orders),
              events := events ?st @ group_events ?groups orders\<rparr>"
    by blast
  have "mset (concat orders) = mset (concat ?groups)" using os by (rule mset_concat_orders)
  then have "mset (concat orders) = mset (enumerate 0 files)"
    using assms by (simp add: concat_slices)
  with os r show ?thesis unfolding caption_run_def by auto
qed

subsection \<open>The results directory after a run\<close>

lemma keys_write_caption:
  "fst ` set (write_caption env g dir j)
     = fst ` set dir \<union> (if written (env j) = None then {} else {caption_name (snd j)})"
  by (auto simp: write_caption_def dom_update split: option.splits)

lemma keys_foldl_write_caption:
  "fst ` set (foldl (write_caption env g) dir order)
     = fst ` set dir \<union> (\<lambda>j. caption_name (snd j)) ` {j \<in> set order. written (env j) \<noteq> None}"
proof (induction order rule: rev_induct)
  case Nil
  then show ?case by simp
next
  case (snoc j order)
  show ?case
    by (simp only: foldl_append foldl.simps keys_write_caption snoc.IH) auto
qed

lemma distinct_foldl_write_caption:
  "distinct (map fst dir) \<Longrightarrow> distinct (map fst (foldl (write_caption env g) dir order))"
proof (induction order rule: rev_induct)
  case Nil
  then show ?case by simp
next
  case (snoc j order)
  then show ?case
    by (simp add: write_caption_def distinct_update split: option.splits)
qed

lemma map_of_write_caption:
  "map_of (write_caption env g dir j) n
     = (case written (env j) of
          None \<Rightarrow> map_of dir n
        | Some c \<Rightarrow> if n = caption_name (snd j) then Some (make_caption g c) else map_of dir n)"
  by (simp add: write_caption_def update_conv' split: option.splits)

lemma map_of_foldl_write_caption_other:
  "n \<notin> (\<lambda>j. caption_name (snd j)) ` {j \<in> set order. written (env j) \<noteq> None} \<Longrightarrow>
     map_of (foldl (write_caption env g) dir order) n = map_of dir n"
proof (induction order rule: rev_induct)
  case Nil
  then show ?case by simp
next
  case (snoc j order)
  then show ?case
    by (auto simp: map_of_write_caption split: option.splits)
qed

lemma map_of_foldl_write_caption_written:
  "j \<in> set order \<Longrightarrow> written (env j) = Some c \<Longrightarrow>
     \<exists>j'\<in>set order. \<exists>c'. written (env j') = Some c'
        \<and> caption_name (snd j') = caption_name (snd j)
        \<and> map_of (foldl (write_caption env g) dir order) (caption_name (snd j))
            = Some (make_caption g c')"
proof (induction order rule: rev_induct)
  case Nil
  then show ?case by simp
next
  case (snoc x order)
  show ?case
  proof (cases "written (env x) \<noteq> None \<and> caption_name (snd x) = caption_name (snd j)")
    case True
    then obtain c' where "written (env x) = Some c'" by auto
    with True show ?thesis
      by (intro bexI[of _ x] exI[of _ c']) (simp_all add: map_of_write_caption)
  next
    case False
    then have same: "map_of (foldl (write_caption env g) dir (order @ [x])) (caption_name (snd j))
                 = map_of (foldl (write_caption env g) dir order) (caption_name (snd j))"
      by (auto simp: map_of_write_caption split: option.splits)
    from False snoc.prems have "j \<in> set order" by auto
    from snoc.IH[OF this snoc.prems(2)] obtain j' c' where
      "j' \<in> set order" "written (env j') = Some c'"
      "caption_name (snd j') = caption_name (snd j)"
      "map_of (foldl (write_caption env g) dir order) (caption_name (snd j)) = Some (make_caption g c')"
      by blast
    with same show ?thesis by (intro bexI[of _ j'] exI[of _ c']) simp_all
  qed
qed

subsection \<open>The arrays of the response\<close>

lemma mset_successes_cong:
  "mset xs = mset ys \<Longrightarrow> mset (successes env g xs) = mset (successes env g ys)"
proof -
  assume a: "mset xs = mset ys"
  have "mset (List.map_filter f zs) = image_mset (the \<circ> f) (filter_mset (\<lambda>x. f x \<noteq> None) (mset zs))"
    for f :: "job \<Rightarrow> caption_result option" and zs
    by (simp add: map_filter_def)
  with a show ?thesis by (simp add: successes_def)
qed

lemma mset_failures_cong:
  "mset xs = mset ys \<Longrightarrow> mset (failures env xs) = mset (failures env ys)"
proof -
  assume a: "mset xs = mset ys"
  have "mset (List.map_filter f zs) = image_mset (the \<circ> f) (filter_mset (\<lambda>x. f x \<noteq> None) (mset zs))"
    for f :: "job \<Rightarrow> file_error option" and zs
    by (simp add: map_filter_def)
  with a show ?thesis by (simp add: failures_def)
qed

lemma files_of_successes_failures:
  "mset (map fst (successes env g jobs)) + mset (map fst (failures env jobs)) = mset (map snd jobs)"
proof (induction jobs)
  case Nil
  then show ?case by simp
next
  case (Cons j jobs)
  have s: "successes env g (j # jobs) = successes env g [j] @ successes env g jobs"
    using successes_simps(2)[of env g "[j]" jobs] by simp
  have f: "failures env (j # jobs) = failures env [j] @ failures env jobs"
    using failures_simps(2)[of env "[j]" jobs] by simp
  have one: "mset (map fst (successes env g [j])) + mset (map fst (failures env [j])) = {#snd j#}"
    by (cases "env j") (simp_all add: successes_def failures_def map_filter_def written_def thrown_def)
  have "mset (map fst (successes env g (j # jobs))) + mset (map fst (failures env (j # jobs)))
          = (mset (map fst (successes env g [j])) + mset (map fst (failures env [j])))
            + (mset (map fst (successes env g jobs)) + mset (map fst (failures env jobs)))"
    unfolding s f by simp
  then show ?case using one Cons.IH by simp
qed

lemma failures_empty_iff:
  "failures env jobs = [] \<longleftrightarrow> (\<forall>j\<in>set jobs. written (env j) \<noteq> None)"
proof (induction jobs)
  case Nil
  then show ?case by simp
next
  case (Cons j jobs)
  have f: "failures env (j # jobs) = failures env [j] @ failures env jobs"
    using failures_simps(2)[of env "[j]" jobs] by simp
  have "failures env [j] = [] \<longleftrightarrow> written (env j) \<noteq> None"
    by (cases "env j") (simp_all add: failures_def map_filter_def written_def thrown_def)
  with Cons f show ?case by simp
qed

subsection \<open>A request that passes the checks\<close>

lemma results_after_ensureDir:
  "(ensureDir fs sessionId)\<lparr>results := (results (ensureDir fs sessionId))(sessionId \<mapsto> dir)\<rparr>
     = fs\<lparr>results := (results fs)(sessionId \<mapsto> dir)\<rparr>"
  by (simp add: ensureDir_def split: option.splits)

lemma select_files_subset: "set (select_files files fileIndices) \<subseteq> set files"
  by (auto simp: select_files_def at_index_def Boolean_def split: option.splits if_splits)

lemma route_files_images: "f \<in> set (route_files r names) \<Longrightarrow> is_image f"
  using select_files_subset[of "image_files names"]
  by (cases r) (auto simp: route_files_def image_files_def)

lemma route_size_pos: "0 < route_size r"
  by (cases r) (simp_all add: route_size_def)

lemma caption_route_rejects:
  assumes "sessionId = [] \<or> apiKey = [] \<or> uploads fs sessionId = None
             \<or> (\<exists>names. uploads fs sessionId = Some names \<and> route_files r names = [])"
  shows "\<exists>status msg fs'. caption_route r pick env fs sessionId apiKey globalTags
            = (ErrorResponse status msg, fs', [])"
  using assms
  by (cases r)
    (auto simp: caption_route_def generate_def batch_def route_files_def Let_def split: option.splits)

lemma caption_route_accepts:
  assumes "sessionId \<noteq> []" and "apiKey \<noteq> []" and "uploads fs sessionId = Some names"
    and "route_files r names \<noteq> []"
  shows "caption_route r pick env fs sessionId apiKey globalTags
           = finish (ensureDir fs sessionId) sessionId
               (caption_run pick env globalTags (route_size r) (results_entries fs sessionId)
                  (route_files r names))"
  using assms
  by (cases r)
    (simp_all add: caption_route_def generate_def batch_def route_files_def route_size_def Let_def)

lemma caption_route_result:
  assumes "sessionId \<noteq> []" and "apiKey \<noteq> []" and "uploads fs sessionId = Some names"
    and "route_files r names \<noteq> []"
  obtains orders where
    "list_all2 (\<lambda>order grp. mset order = mset grp) orders
       (slices (route_size r) 0 (enumerate 0 (route_files r names)))"
    and "mset (concat orders) = mset (enumerate 0 (route_files r names))"
    and "caption_route r pick env fs sessionId apiKey globalTags
           = (CaptionResponse (successes env globalTags (concat orders)) (failures env (concat orders)),
              fs\<lparr>results := (results fs)(sessionId \<mapsto>
                   foldl (write_caption env globalTags) (results_entries fs sessionId) (concat orders))\<rparr>,
              group_events (slices (route_size r) 0 (enumerate 0 (route_files r names))) orders)"
proof -
  from caption_run_eq[OF route_size_pos, of r "route_files r names" pick env globalTags
      "results_entries fs sessionId"]
  obtain orders where
    1: "list_all2 (\<lambda>order grp. mset order = mset grp) orders
       (slices (route_size r) 0 (enumerate 0 (route_files r names)))"
    and 2: "mset (concat orders) = mset (enumerate 0 (route_files r names))"
    and 3: "caption_run pick env globalTags (route_size r) (results_entries fs sessionId) (route_files r names)
         = \<lparr>entries = foldl (write_caption env globalTags) (results_entries fs sessionId) (concat orders),
            out_results = successes env globalTags (concat orders),
            out_errors = failures env (concat orders),
            events = group_events (slices (route_size r) 0 (enumerate 0 (route_files r names))) orders\<rparr>"
    by blast
  have "caption_route r pick env fs sessionId apiKey globalTags
           = (CaptionResponse (successes env globalTags (concat orders)) (failures env (concat orders)),
              fs\<lparr>results := (results fs)(sessionId \<mapsto>
                   foldl (write_caption env globalTags) (results_entries fs sessionId) (concat orders))\<rparr>,
              group_events (slices (route_size r) 0 (enumerate 0 (route_files r names))) orders)"
    unfolding caption_route_accepts[OF assms] 3 by (simp add: finish_def results_after_ensureDir)
  with 1 2 that show thesis by blast
qed

lemma results_entries_update [simp]:
  "results_entries (fs\<lparr>results := (results fs)(sessionId \<mapsto> dir)\<rparr>) sessionId = dir"
  by (simp add: results_entries_def)

lemma snd_set_enumerate: "snd ` set (enumerate n xs) = set xs"
  by (metis list.set_map map_snd_enumerate)

lemma same_basename_files:
  "uploads same_basename ''s'' = Some [''a.jpg'', ''a.png'']"
  "image_files [''a.jpg'', ''a.png''] = [''a.jpg'', ''a.png'']"
  "results_entries same_basename ''s'' = []"
  by (simp_all add: same_basename_def image_files_def is_image_def extname_def toLowerCase_def
      lower_char_def upper_letters_def lower_letters_def results_entries_def)

text \<open>
  Claim C8: a failure while one file is processed (metadata read, request, unusable
  response or write) becomes a \<^verbatim>\<open>{file, error}\<close> entry and the other files are still
  processed. Whatever the outcomes, a request that passes the checks is answered 200;
  \<^verbatim>\<open>results\<close> holds exactly the entries of the jobs that completed and \<^verbatim>\<open>errors\<close>
  exactly those of the jobs that failed, so every file is in one of the two; no entry of
  the results directory disappears, entries that are not the output of a file of the run
  keep their content, and the caption file of every completed job exists afterwards.
\<close>

theorem captioning_survives_failures:
  assumes "sessionId \<noteq> []" and "apiKey \<noteq> []" and "uploads fs sessionId = Some names"
    and "route_files r names \<noteq> []"
  shows "\<exists>rs es fs' evs.
      caption_route r pick env fs sessionId apiKey globalTags = (CaptionResponse rs es, fs', evs)
    \<and> mset rs = mset (successes env globalTags (enumerate 0 (route_files r names)))
    \<and> mset es = mset (failures env (enumerate 0 (route_files r names)))
    \<and> mset (map fst rs) + mset (map fst es) = mset (route_files r names)
    \<and> fst ` set (results_entries fs sessionId) \<subseteq> fst ` set (results_entries fs' sessionId)
    \<and> (\<forall>n. n \<notin> caption_name ` set (route_files r names) \<longrightarrow>
           map_of (results_entries fs' sessionId) n = map_of (results_entries fs sessionId) n)
    \<and> (\<forall>j\<in>set (enumerate 0 (route_files r names)).
           written (env j) \<noteq> None \<longrightarrow> caption_name (snd j) \<in> set (caption_files fs' sessionId))"
proof -
  let ?files = "route_files r names"
  let ?jobs = "enumerate 0 ?files"
  from assms obtain orders where
    perm: "mset (concat orders) = mset ?jobs"
    and run: "caption_route r pick env fs sessionId apiKey globalTags
           = (CaptionResponse (successes env globalTags (concat orders)) (failures env (concat orders)),
              fs\<lparr>results := (results fs)(sessionId \<mapsto>
                   foldl (write_caption env globalTags) (results_entries fs sessionId) (concat orders))\<rparr>,
              group_events (slices (route_size r) 0 ?jobs) orders)"
    by (rule caption_route_result)
  let ?all = "concat orders"
  let ?dir' = "foldl (write_caption env globalTags) (results_entries fs sessionId) ?all"
  let ?fs' = "fs\<lparr>results := (results fs)(sessionId \<mapsto> ?dir')\<rparr>"
  have set_all: "set ?all = set ?jobs" using perm by (rule mset_eq_setD)
  have rs: "mset (successes env globalTags ?all) = mset (successes env globalTags ?jobs)"
    using perm by (rule mset_successes_cong)
  have es: "mset (failures env ?all) = mset (failures env ?jobs)"
    using perm by (rule mset_failures_cong)
  have "mset (map fst (successes env globalTags ?all)) + mset (map fst (failures env ?all))
          = mset (map snd ?all)"
    by (rule files_of_successes_failures)
  also have "\<dots> = mset (map snd ?jobs)" using perm by (metis mset_map)
  also have "\<dots> = mset ?files" by (simp only: map_snd_enumerate)
  finally have both: "mset (map fst (successes env globalTags ?all)) + mset (map fst (failures env ?all))
          = mset ?files" .
  have keys: "fst ` set ?dir' = fst ` set (results_entries fs sessionId)
                \<union> (\<lambda>j. caption_name (snd j)) ` {j \<in> set ?jobs. written (env j) \<noteq> None}"
    by (simp only: keys_foldl_write_caption set_all)
  have other: "map_of ?dir' n = map_of (results_entries fs sessionId) n"
    if "n \<notin> caption_name ` set ?files" for n
  proof (rule map_of_foldl_write_caption_other)
    have "(\<lambda>j. caption_name (snd j)) ` {j \<in> set ?all. written (env j) \<noteq> None}
            \<subseteq> caption_name ` snd ` set ?jobs"
      unfolding set_all by blast
    with that show "n \<notin> (\<lambda>j. caption_name (snd j)) ` {j \<in> set ?all. written (env j) \<noteq> None}"
      by (auto simp: snd_set_enumerate)
  qed
  have exists: "caption_name (snd j) \<in> set (caption_files ?fs' sessionId)"
    if "j \<in> set ?jobs" "written (env j) \<noteq> None" for j
  proof -
    from that(1) have "snd j \<in> set ?files" using snd_set_enumerate[of 0 ?files] by force
    then have "is_caption (caption_name (snd j))"
      by (intro is_caption_caption_name route_files_images)
    moreover from that have "caption_name (snd j) \<in> fst ` set ?dir'" unfolding keys by blast
    ultimately show ?thesis by (simp add: caption_files_def)
  qed
  show ?thesis
    apply (rule exI[of _ "successes env globalTags ?all"])
    apply (rule exI[of _ "failures env ?all"])
    apply (rule exI[of _ ?fs'])
    apply (rule exI[of _ "group_events (slices (route_size r) 0 ?jobs) orders"])
    using run rs es both keys other exists by auto
qed

theorem captioning_survives_failures_witness:
  "''s'' \<noteq> [] \<and> ''key'' \<noteq> [] \<and> uploads same_basename ''s'' = Some [''a.jpg'', ''a.png'']
   \<and> route_files Generate [''a.jpg'', ''a.png''] \<noteq> []
   \<and> (\<exists>rs es fs' evs.
        caption_route Generate (\<lambda>_. 0)
          (\<lambda>j. if fst j = 0 then RequestFails ''timeout'' else Completes ''cat'')
          same_basename ''s'' ''key'' [] = (CaptionResponse rs es, fs', evs)
      \<and> mset (map fst rs) + mset (map fst es) = mset [''a.jpg'', ''a.png''])"
proof -
  have h: "''s'' \<noteq> []" "''key'' \<noteq> []" "uploads same_basename ''s'' = Some [''a.jpg'', ''a.png'']"
    "route_files Generate [''a.jpg'', ''a.png''] \<noteq> []"
    by (simp_all add: same_basename_files route_files_def)
  from captioning_survives_failures[OF h,
      of "\<lambda>_. 0" "\<lambda>j. if fst j = 0 then RequestFails ''timeout'' else Completes ''cat''" "[]"]
  have "\<exists>rs es fs' evs.
        caption_route Generate (\<lambda>_. 0)
          (\<lambda>j. if fst j = 0 then RequestFails ''timeout'' else Completes ''cat'')
          same_basename ''s'' ''key'' [] = (CaptionResponse rs es, fs', evs)
      \<and> mset (map fst rs) + mset (map fst es) = mset (route_files Generate [''a.jpg'', ''a.png''])"
    by blast
  then show ?thesis using h by (simp add: route_files_def same_basename_files)
qed

lemma set_successes:
  "set (successes env g jobs)
     = {(snd j, caption_name (snd j), make_caption g c) | j c. j \<in> set jobs \<and> written (env j) = Some c}"
proof (induction jobs)
  case Nil
  then show ?case by simp
next
  case (Cons j jobs)
  have s: "successes env g (j # jobs) = successes env g [j] @ successes env g jobs"
    using successes_simps(2)[of env g "[j]" jobs] by simp
  have one: "set (successes env g [j])
               = {(snd j, caption_name (snd j), make_caption g c) | c. written (env j) = Some c}"
    by (cases "written (env j)") (simp_all add: successes_def map_filter_def)
  show ?case unfolding s set_append one Cons.IH
  proof (intro equalityI subsetI)
    fix x
    assume "x \<in> {(snd j, caption_name (snd j), make_caption g c) | c. written (env j) = Some c}
              \<union> {(snd j, caption_name (snd j), make_caption g c) | j c.
                   j \<in> set jobs \<and> written (env j) = Some c}"
    then show "x \<in> {(snd ja, caption_name (snd ja), make_caption g c) | ja c.
                   ja \<in> set (j # jobs) \<and> written (env ja) = Some c}"
      by (elim UnE CollectE exE conjE; intro CollectI exI conjI) (assumption | simp)+
  next
    fix x
    assume "x \<in> {(snd ja, caption_name (snd ja), make_caption g c) | ja c.
                   ja \<in> set (j # jobs) \<and> written (env ja) = Some c}"
    then obtain ja c where x: "x = (snd ja, caption_name (snd ja), make_caption g c)"
      and ja: "ja \<in> set (j # jobs)" and w: "written (env ja) = Some c" by blast
    show "x \<in> {(snd j, caption_name (snd j), make_caption g c) | c. written (env j) = Some c}
              \<union> {(snd j, caption_name (snd j), make_caption g c) | j c.
                   j \<in> set jobs \<and> written (env j) = Some c}"
    proof (cases "ja = j")
      case True
      with x w show ?thesis by blast
    next
      case False
      with ja have "ja \<in> set jobs" by simp
      with x w show ?thesis by blast
    qed
  qed
qed

lemma one_image_files:
  "uploads one_image ''s'' = Some [''a.jpg'', ''notes.md'']"
  "image_files [''a.jpg'', ''notes.md''] = [''a.jpg'']"
  "results_entries one_image ''s'' = []"
  "caption_name ''a.jpg'' = ''a.txt''"
  using parse_name_dot_suffix[of "''a''" "''jpg''"]
  by (simp_all add: one_image_def image_files_def is_image_def extname_def toLowerCase_def
      lower_char_def upper_letters_def lower_letters_def results_entries_def caption_name_def)

text \<open>
  Claim C5, amended: on both routes, the caption of a completed job is the trimmed content
  of the first completion, followed by \<^verbatim>\<open>, <tags>\<close> with the trimmed global tags whenever
  these are not blank, with no check against the completion. This caption is what the
  entry in \<^verbatim>\<open>results\<close> carries and what the job writes to its caption file; after the run
  the file holds the caption of a completed job with that output name, which is the job's
  own when no other completed job of the run shares the name.
\<close>

theorem captions_are_trimmed_completions_with_tags:
  assumes "sessionId \<noteq> []" and "apiKey \<noteq> []" and "uploads fs sessionId = Some names"
    and "route_files r names \<noteq> []"
  shows "\<exists>rs es fs' evs.
      caption_route r pick env fs sessionId apiKey globalTags = (CaptionResponse rs es, fs', evs)
    \<and> mset rs = mset (successes env globalTags (enumerate 0 (route_files r names)))
    \<and> (\<forall>j\<in>set (enumerate 0 (route_files r names)). \<forall>content. written (env j) = Some content \<longrightarrow>
          (snd j, caption_name (snd j), make_caption globalTags content) \<in> set rs
        \<and> (\<exists>j'\<in>set (enumerate 0 (route_files r names)). \<exists>content'.
              written (env j') = Some content' \<and> caption_name (snd j') = caption_name (snd j)
            \<and> map_of (results_entries fs' sessionId) (caption_name (snd j))
                = Some (make_caption globalTags content'))
        \<and> ((\<forall>j'\<in>set (enumerate 0 (route_files r names)).
               written (env j') \<noteq> None \<and> caption_name (snd j') = caption_name (snd j) \<longrightarrow> j' = j) \<longrightarrow>
             map_of (results_entries fs' sessionId) (caption_name (snd j))
               = Some (make_caption globalTags content)))
    \<and> (\<forall>content. make_caption globalTags content
          = (if trim globalTags = [] then trim content
             else trim content @ '', '' @ trim globalTags))"
proof -
  let ?files = "route_files r names"
  let ?jobs = "enumerate 0 ?files"
  from assms obtain orders where
    perm: "mset (concat orders) = mset ?jobs"
    and run: "caption_route r pick env fs sessionId apiKey globalTags
           = (CaptionResponse (successes env globalTags (concat orders)) (failures env (concat orders)),
              fs\<lparr>results := (results fs)(sessionId \<mapsto>
                   foldl (write_caption env globalTags) (results_entries fs sessionId) (concat orders))\<rparr>,
              group_events (slices (route_size r) 0 ?jobs) orders)"
    by (rule caption_route_result)
  let ?all = "concat orders"
  let ?dir' = "foldl (write_caption env globalTags) (results_entries fs sessionId) ?all"
  let ?fs' = "fs\<lparr>results := (results fs)(sessionId \<mapsto> ?dir')\<rparr>"
  have set_all: "set ?all = set ?jobs" using perm by (rule mset_eq_setD)
  have rs: "mset (successes env globalTags ?all) = mset (successes env globalTags ?jobs)"
    using perm by (rule mset_successes_cong)
  have per_job:
    "(snd j, caption_name (snd j), make_caption globalTags content) \<in> set (successes env globalTags ?all)
      \<and> (\<exists>j'\<in>set ?jobs. \<exists>content'.
              written (env j') = Some content' \<and> caption_name (snd j') = caption_name (snd j)
            \<and> map_of ?dir' (caption_name (snd j)) = Some (make_caption globalTags content'))
      \<and> ((\<forall>j'\<in>set ?jobs.
               written (env j') \<noteq> None \<and> caption_name (snd j') = caption_name (snd j) \<longrightarrow> j' = j) \<longrightarrow>
             map_of ?dir' (caption_name (snd j)) = Some (make_caption globalTags content))"
    if j: "j \<in> set ?jobs" and w: "written (env j) = Some content" for j content
  proof -
    from j w have 1: "(snd j, caption_name (snd j), make_caption globalTags content)
                        \<in> set (successes env globalTags ?all)"
      unfolding set_successes set_all by blast
    from j have "j \<in> set ?all" using set_all by blast
    from map_of_foldl_write_caption_written[of j ?all env content globalTags "results_entries fs sessionId", OF this w]
    obtain j' content' where
      j': "j' \<in> set ?jobs" "written (env j') = Some content'"
        "caption_name (snd j') = caption_name (snd j)"
        "map_of ?dir' (caption_name (snd j)) = Some (make_caption globalTags content')"
      unfolding set_all by blast
    have 3: "map_of ?dir' (caption_name (snd j)) = Some (make_caption globalTags content)"
      if "\<forall>j'\<in>set ?jobs. written (env j') \<noteq> None \<and> caption_name (snd j') = caption_name (snd j) \<longrightarrow> j' = j"
    proof -
      from that j' have "j' = j" by auto
      with j' w show ?thesis by simp
    qed
    from 1 j' 3 show ?thesis by blast
  qed
  have mk: "make_caption globalTags content
          = (if trim globalTags = [] then trim content else trim content @ '', '' @ trim globalTags)"
    for content
    by (auto simp: make_caption_def Let_def)
  show ?thesis
    apply (rule exI[of _ "successes env globalTags ?all"])
    apply (rule exI[of _ "failures env ?all"])
    apply (rule exI[of _ ?fs'])
    apply (rule exI[of _ "group_events (slices (route_size r) 0 ?jobs) orders"])
    apply (intro conjI)
       apply (rule run)
      apply (rule rs)
     apply (use per_job in simp)
    apply (use mk in blast)
    done
qed

theorem captions_are_trimmed_completions_with_tags_witness:
  "\<exists>rs es fs' evs.
      caption_route Generate (\<lambda>_. 0) (\<lambda>_. Completes ''  cat '') one_image ''s'' ''key'' '' cat ''
        = (CaptionResponse rs es, fs', evs)
    \<and> (''a.jpg'', ''a.txt'', ''cat, cat'') \<in> set rs
    \<and> map_of (results_entries fs' ''s'') ''a.txt'' = Some ''cat, cat''"
proof -
  have h: "''s'' \<noteq> []" "''key'' \<noteq> []" "uploads one_image ''s'' = Some [''a.jpg'', ''notes.md'']"
    "route_files Generate [''a.jpg'', ''notes.md''] \<noteq> []"
    by (simp_all add: one_image_files route_files_def)
  have jobs: "enumerate 0 (route_files Generate [''a.jpg'', ''notes.md'']) = [(0, ''a.jpg'')]"
    by (simp add: route_files_def one_image_files)
  have mk: "make_caption '' cat '' ''  cat '' = ''cat, cat''"
    by (simp add: make_caption_def trim_def is_space_def)
  from captions_are_trimmed_completions_with_tags[OF h, of "\<lambda>_. 0" "\<lambda>_. Completes ''  cat ''" "'' cat ''"]
  obtain rs es fs' evs where
    run: "caption_route Generate (\<lambda>_. 0) (\<lambda>_. Completes ''  cat '') one_image ''s'' ''key'' '' cat ''
        = (CaptionResponse rs es, fs', evs)"
    and each: "\<forall>j\<in>set [(0 :: nat, ''a.jpg'')]. \<forall>content. written (Completes ''  cat '') = Some content \<longrightarrow>
          (snd j, caption_name (snd j), make_caption '' cat '' content) \<in> set rs
        \<and> (\<exists>j'\<in>set [(0 :: nat, ''a.jpg'')]. \<exists>content'.
              written (Completes ''  cat '') = Some content' \<and> caption_name (snd j') = caption_name (snd j)
            \<and> map_of (results_entries fs' ''s'') (caption_name (snd j))
                = Some (make_caption '' cat '' content'))
        \<and> ((\<forall>j'\<in>set [(0 :: nat, ''a.jpg'')].
               written (Completes ''  cat '') \<noteq> None \<and> caption_name (snd j') = caption_name (snd j) \<longrightarrow> j' = j) \<longrightarrow>
             map_of (results_entries fs' ''s'') (caption_name (snd j))
               = Some (make_caption '' cat '' content))"
    unfolding jobs by blast
  from each have "(''a.jpg'', ''a.txt'', ''cat, cat'') \<in> set rs
      \<and> map_of (results_entries fs' ''s'') ''a.txt'' = Some ''cat, cat''"
    by (simp add: written_def one_image_files mk)
  with run show ?thesis by blast
qed

lemma cat_then_dog_run:
  "generate settle_in_order cat_then_dog same_basename ''s'' ''key'' []
     = (CaptionResponse [(''a.jpg'', ''a.txt'', ''cat''), (''a.png'', ''a.txt'', ''dog'')] [],
        same_basename\<lparr>results := (results same_basename)(''s'' \<mapsto> [(''a.txt'', ''dog'')])\<rparr>,
        [Issued (0, ''a.jpg''), Issued (1, ''a.png''), Settled (0, ''a.jpg''), Settled (1, ''a.png'')])"
proof -
  have mk: "make_caption [] ''cat'' = ''cat''" "make_caption [] ''dog'' = ''dog''"
    by (simp_all add: make_caption_def trim_def is_space_def)
  have cn: "caption_name ''a.jpg'' = ''a.txt''" "caption_name ''a.png'' = ''a.txt''"
    using parse_name_dot_suffix[of "''a''" "''jpg''"] parse_name_dot_suffix[of "''a''" "''png''"]
    by (simp_all add: caption_name_def)
  have sl: "slices 5 0 [(0 :: nat, ''a.jpg''), (1, ''a.png'')] = [[(0, ''a.jpg''), (1, ''a.png'')]]"
    by (simp add: slices.simps[of 5 0] slices.simps[of 5 5])
  have en: "enumerate 0 [''a.jpg'', ''a.png''] = [(0, ''a.jpg''), (1, ''a.png'')]" by simp
  have "caption_run settle_in_order cat_then_dog [] 5 [] [''a.jpg'', ''a.png'']
          = \<lparr>entries = [(''a.txt'', ''dog'')],
             out_results = [(''a.jpg'', ''a.txt'', ''cat''), (''a.png'', ''a.txt'', ''dog'')],
             out_errors = [],
             events = [Issued (0, ''a.jpg''), Issued (1, ''a.png''), Settled (0, ''a.jpg''), Settled (1, ''a.png'')]\<rparr>"
    unfolding caption_run_def en sl
    by (simp add: process_group_def settle_def mk cn Let_def settle_in_order_def cat_then_dog_def)
  then show ?thesis
    by (simp add: generate_def same_basename_files Let_def finish_def results_after_ensureDir)
qed

text \<open>
  Claim C5 as stated fails when two images share a base name: \<^verbatim>\<open>a.jpg\<close> completes with
  \<^verbatim>\<open>cat\<close> and \<^verbatim>\<open>a.png\<close> with \<^verbatim>\<open>dog\<close>, both are reported in \<^verbatim>\<open>results\<close> with no error,
  and the caption persisted for \<^verbatim>\<open>a.jpg\<close>, the file \<^verbatim>\<open>a.txt\<close>, holds \<^verbatim>\<open>dog\<close> and not the
  trimmed completion \<^verbatim>\<open>cat\<close> of \<^verbatim>\<open>a.jpg\<close>.
\<close>

theorem persisted_caption_counterexample:
  "fst (generate settle_in_order cat_then_dog same_basename ''s'' ''key'' [])
     = CaptionResponse [(''a.jpg'', ''a.txt'', ''cat''), (''a.png'', ''a.txt'', ''dog'')] []
   \<and> cat_then_dog (0, ''a.jpg'') = Completes ''cat''
   \<and> trim ''cat'' = ''cat''
   \<and> caption_name ''a.jpg'' = ''a.txt''
   \<and> map_of (results_entries (fst (snd (generate settle_in_order cat_then_dog same_basename ''s'' ''key'' []))) ''s'')
         ''a.txt'' = Some ''dog''"
proof -
  have "caption_name ''a.jpg'' = ''a.txt''"
    using parse_name_dot_suffix[of "''a''" "''jpg''"] by (simp add: caption_name_def)
  moreover have "trim ''cat'' = ''cat''" by (simp add: trim_def is_space_def)
  ultimately show ?thesis
    by (simp add: cat_then_dog_run cat_then_dog_def)
qed

lemma issued_group_events:
  "length orders = length groups \<Longrightarrow> issued (group_events groups orders) = map snd (concat groups)"
proof (induction orders groups rule: list_induct2)
  case Nil
  then show ?case by (simp add: issued_def)
next
  case (Cons order orders grp groups)
  have "issued (xs @ ys) = issued xs @ issued ys" for xs ys by (simp add: issued_def)
  moreover have "issued (map Issued xs) = map snd xs" for xs
    by (induction xs) (simp_all add: issued_def)
  moreover have "issued (map Settled xs) = []" for xs
    by (induction xs) (simp_all add: issued_def)
  ultimately show ?case using Cons.IH by simp
qed

lemma one_image_jobs:
  "route_files Generate [''a.jpg'', ''notes.md''] = [''a.jpg'']"
  "slices 5 0 [(0 :: nat, ''a.jpg'')] = [[(0, ''a.jpg'')]]"
  by (simp_all add: route_files_def one_image_files slices.simps[of 5 0] slices.simps[of 5 5])

text \<open>
  Claim C6: the file list is cut into consecutive groups of 5 (generate) or 3 (batch):
  the groups put end to end are the list, every group but the last has the full size and
  none is empty or larger. The groups run one after the other: the events of a run are,
  group by group, the requests of the whole group issued in list order, followed by the
  settling of each of its jobs, before anything of the next group.
\<close>

theorem groups_are_fixed_size_and_sequential:
  assumes "sessionId \<noteq> []" and "apiKey \<noteq> []" and "uploads fs sessionId = Some names"
    and "route_files r names \<noteq> []"
  shows "route_size Generate = 5 \<and> route_size (Batch fileIndices) = 3
    \<and> (\<exists>groups orders rs es fs'.
          groups = slices (route_size r) 0 (enumerate 0 (route_files r names))
        \<and> concat groups = enumerate 0 (route_files r names)
        \<and> concat (map (map snd) groups) = route_files r names
        \<and> (\<forall>grp\<in>set (butlast groups). length grp = route_size r)
        \<and> (\<forall>grp\<in>set groups. 0 < length grp \<and> length grp \<le> route_size r)
        \<and> list_all2 (\<lambda>order grp. mset order = mset grp) orders groups
        \<and> caption_route r pick env fs sessionId apiKey globalTags
            = (CaptionResponse rs es, fs', group_events groups orders))"
proof -
  let ?jobs = "enumerate 0 (route_files r names)"
  let ?groups = "slices (route_size r) 0 ?jobs"
  from assms obtain orders where
    os: "list_all2 (\<lambda>order grp. mset order = mset grp) orders ?groups"
    and run: "caption_route r pick env fs sessionId apiKey globalTags
           = (CaptionResponse (successes env globalTags (concat orders)) (failures env (concat orders)),
              fs\<lparr>results := (results fs)(sessionId \<mapsto>
                   foldl (write_caption env globalTags) (results_entries fs sessionId) (concat orders))\<rparr>,
              group_events ?groups orders)"
    by (rule caption_route_result)
  have c: "concat ?groups = ?jobs" using route_size_pos[of r] by (simp add: concat_slices)
  have "concat (map (map snd) ?groups) = map snd (concat ?groups)" by (simp add: map_concat)
  then have c': "concat (map (map snd) ?groups) = route_files r names" by (simp only: c map_snd_enumerate)
  have full: "\<forall>grp\<in>set (butlast ?groups). length grp = route_size r"
    using slices_full[OF route_size_pos] by blast
  have sizes: "\<forall>grp\<in>set ?groups. 0 < length grp \<and> length grp \<le> route_size r"
    using slices_sizes[OF route_size_pos] by blast
  have "\<exists>groups orders rs es fs'.
          groups = ?groups \<and> concat groups = ?jobs \<and> concat (map (map snd) groups) = route_files r names
        \<and> (\<forall>grp\<in>set (butlast groups). length grp = route_size r)
        \<and> (\<forall>grp\<in>set groups. 0 < length grp \<and> length grp \<le> route_size r)
        \<and> list_all2 (\<lambda>order grp. mset order = mset grp) orders groups
        \<and> caption_route r pick env fs sessionId apiKey globalTags
            = (CaptionResponse rs es, fs', group_events groups orders)"
    using c c' full sizes os run by blast
  then show ?thesis by (simp add: route_size_def)
qed

theorem groups_are_fixed_size_and_sequential_witness:
  "\<exists>orders rs es fs'.
      list_all2 (\<lambda>order grp. mset order = mset grp) orders
        [[(0, ''a.jpg''), (1, ''b.jpg''), (2, ''c.jpg'')], [(3, ''d.jpg'')]]
    \<and> caption_route (Batch None) settle_in_order completes_cat four_images ''s'' ''key'' []
        = (CaptionResponse rs es, fs',
           group_events [[(0, ''a.jpg''), (1, ''b.jpg''), (2, ''c.jpg'')], [(3, ''d.jpg'')]] orders)"
proof -
  have img: "image_files [''a.jpg'', ''b.jpg'', ''c.jpg'', ''d.jpg''] = [''a.jpg'', ''b.jpg'', ''c.jpg'', ''d.jpg'']"
    by (simp add: image_files_def is_image_def extname_def toLowerCase_def lower_char_def upper_letters_def lower_letters_def)
  have files: "route_files (Batch None) [''a.jpg'', ''b.jpg'', ''c.jpg'', ''d.jpg'']
                 = [''a.jpg'', ''b.jpg'', ''c.jpg'', ''d.jpg'']"
    by (simp add: route_files_def select_files_def img)
  have h: "''s'' \<noteq> []" "''key'' \<noteq> []"
    "uploads four_images ''s'' = Some [''a.jpg'', ''b.jpg'', ''c.jpg'', ''d.jpg'']"
    "route_files (Batch None) [''a.jpg'', ''b.jpg'', ''c.jpg'', ''d.jpg''] \<noteq> []"
    by (simp_all add: four_images_def files)
  have sl: "slices 3 0 (enumerate 0 [''a.jpg'', ''b.jpg'', ''c.jpg'', ''d.jpg''])
              = [[(0, ''a.jpg''), (1, ''b.jpg''), (2, ''c.jpg'')], [(3, ''d.jpg'')]]"
    by (simp add: slices.simps[of 3 0] slices.simps[of 3 3] slices.simps[of 3 6])
  have size: "route_size (Batch None) = 3" by (simp add: route_size_def)
  from groups_are_fixed_size_and_sequential[OF h, of None settle_in_order completes_cat "[]"]
  obtain orders rs es fs' where
    "list_all2 (\<lambda>order grp. mset order = mset grp) orders
       (slices (route_size (Batch None)) 0
          (enumerate 0 (route_files (Batch None) [''a.jpg'', ''b.jpg'', ''c.jpg'', ''d.jpg''])))"
    and "caption_route (Batch None) settle_in_order completes_cat four_images ''s'' ''key'' []
        = (CaptionResponse rs es, fs',
           group_events
             (slices (route_size (Batch None)) 0
                (enumerate 0 (route_files (Batch None) [''a.jpg'', ''b.jpg'', ''c.jpg'', ''d.jpg''])))
             orders)"
    by blast
  then show ?thesis unfolding size files sl by blast
qed

lemma select_files_indices:
  assumes "indices \<noteq> []" and "\<forall>f\<in>set files. f \<noteq> []"
  shows "select_files files (Some indices)
           = map (\<lambda>i. files ! nat i) (filter (\<lambda>i. 0 \<le> i \<and> i < int (length files)) indices)"
proof -
  have "map the (filter Boolean (map (at_index files) is))
          = map (\<lambda>i. files ! nat i) (filter (\<lambda>i. 0 \<le> i \<and> i < int (length files)) is)" for "is"
  proof (induction "is")
    case Nil
    then show ?case by simp
  next
    case (Cons i "is")
    show ?case
    proof (cases "0 \<le> i \<and> i < int (length files)")
      case True
      then have "nat i < length files" by auto
      then have "files ! nat i \<noteq> []" using assms(2) by auto
      with True Cons show ?thesis by (simp add: at_index_def Boolean_def)
    next
      case False
      with Cons show ?thesis by (auto simp: at_index_def Boolean_def)
    qed
  qed
  with assms(1) show ?thesis by (simp add: select_files_def)
qed

text \<open>
  Claim C10: a batch request with a non-empty \<^verbatim>\<open>fileIndices\<close> array works on the files
  at the listed positions of the qualifying image list, in the order listed, and skips
  every index outside the list without an error. When no index is inside, the answer is
  400 \<^verbatim>\<open>No image files found to process\<close>, no request is issued and the entries of the
  results directory are as before. Otherwise the requests issued are those of the
  selected files, in order, and each selected file is in \<^verbatim>\<open>results\<close> or \<^verbatim>\<open>errors\<close>.
\<close>

theorem batch_processes_the_indexed_files:
  assumes "sessionId \<noteq> []" and "apiKey \<noteq> []" and "uploads fs sessionId = Some names"
    and "indices \<noteq> []"
    and "selected = map (\<lambda>i. image_files names ! nat i)
                      (filter (\<lambda>i. 0 \<le> i \<and> i < int (length (image_files names))) indices)"
  shows "select_files (image_files names) (Some indices) = selected
    \<and> (selected = [] \<longrightarrow>
          batch pick env fs sessionId apiKey globalTags (Some indices)
            = (ErrorResponse 400 ''No image files found to process'', ensureDir fs sessionId, [])
        \<and> results_entries (ensureDir fs sessionId) sessionId = results_entries fs sessionId)
    \<and> (selected \<noteq> [] \<longrightarrow>
          (\<exists>rs es fs' evs.
              batch pick env fs sessionId apiKey globalTags (Some indices) = (CaptionResponse rs es, fs', evs)
            \<and> issued evs = selected
            \<and> mset (map fst rs) + mset (map fst es) = mset selected))"
proof -
  have ne: "\<forall>f\<in>set (image_files names). f \<noteq> []"
    by (auto simp: image_files_def dest: is_image_nonempty)
  have sel: "select_files (image_files names) (Some indices) = selected"
    unfolding assms(5) using assms(4) ne by (rule select_files_indices)
  have rf: "route_files (Batch (Some indices)) names = selected"
    by (simp add: route_files_def sel)
  have empty: "batch pick env fs sessionId apiKey globalTags (Some indices)
            = (ErrorResponse 400 ''No image files found to process'', ensureDir fs sessionId, [])"
    if "selected = []"
    using that assms(1-3) sel by (simp add: batch_def Let_def)
  have nonempty: "\<exists>rs es fs' evs.
              batch pick env fs sessionId apiKey globalTags (Some indices) = (CaptionResponse rs es, fs', evs)
            \<and> issued evs = selected
            \<and> mset (map fst rs) + mset (map fst es) = mset selected"
    if "selected \<noteq> []"
  proof -
    let ?jobs = "enumerate 0 selected"
    let ?groups = "slices 3 0 ?jobs"
    from that rf have "route_files (Batch (Some indices)) names \<noteq> []" by simp
    from caption_route_result[OF assms(1-3) this, of pick env globalTags]
    obtain orders where
      os: "list_all2 (\<lambda>order grp. mset order = mset grp) orders ?groups"
      and perm: "mset (concat orders) = mset ?jobs"
      and run: "caption_route (Batch (Some indices)) pick env fs sessionId apiKey globalTags
           = (CaptionResponse (successes env globalTags (concat orders)) (failures env (concat orders)),
              fs\<lparr>results := (results fs)(sessionId \<mapsto>
                   foldl (write_caption env globalTags) (results_entries fs sessionId) (concat orders))\<rparr>,
              group_events ?groups orders)"
      unfolding rf by (auto simp: route_size_def)
    from os have "length orders = length ?groups" by (rule list_all2_lengthD)
    then have "issued (group_events ?groups orders) = map snd (concat ?groups)"
      by (rule issued_group_events)
    then have iss: "issued (group_events ?groups orders) = selected"
      by (simp add: concat_slices)
    have "mset (map fst (successes env globalTags (concat orders)))
            + mset (map fst (failures env (concat orders))) = mset (map snd (concat orders))"
      by (rule files_of_successes_failures)
    also have "\<dots> = mset (map snd ?jobs)" using perm by (metis mset_map)
    also have "\<dots> = mset selected" by (simp only: map_snd_enumerate)
    finally have both: "mset (map fst (successes env globalTags (concat orders)))
            + mset (map fst (failures env (concat orders))) = mset selected" .
    from run have "batch pick env fs sessionId apiKey globalTags (Some indices)
           = (CaptionResponse (successes env globalTags (concat orders)) (failures env (concat orders)),
              fs\<lparr>results := (results fs)(sessionId \<mapsto>
                   foldl (write_caption env globalTags) (results_entries fs sessionId) (concat orders))\<rparr>,
              group_events ?groups orders)"
      by (simp add: caption_route_def)
    with iss both show ?thesis by blast
  qed
  from sel empty nonempty show ?thesis by simp
qed

theorem batch_processes_the_indexed_files_witness:
  "batch (\<lambda>_. 0) (\<lambda>_. Completes ''cat'') one_image ''s'' ''key'' [] (Some [7, - 1])
     = (ErrorResponse 400 ''No image files found to process'', ensureDir one_image ''s'', [])
   \<and> select_files (image_files [''a.jpg'', ''notes.md'']) (Some [5, 0, - 1, 0]) = [''a.jpg'', ''a.jpg'']"
proof -
  have h: "''s'' \<noteq> []" "''key'' \<noteq> []" "uploads one_image ''s'' = Some [''a.jpg'', ''notes.md'']"
    by (simp_all add: one_image_files)
  have s1: "[] = map (\<lambda>i. image_files [''a.jpg'', ''notes.md''] ! nat i)
                      (filter (\<lambda>i. 0 \<le> i \<and> i < int (length (image_files [''a.jpg'', ''notes.md'']))) [7, - 1])"
    by (simp add: one_image_files)
  have s2: "[''a.jpg'', ''a.jpg''] = map (\<lambda>i. image_files [''a.jpg'', ''notes.md''] ! nat i)
                      (filter (\<lambda>i. 0 \<le> i \<and> i < int (length (image_files [''a.jpg'', ''notes.md'']))) [5, 0, - 1, 0])"
    by (simp add: one_image_files)
  have n1: "[7, - 1 :: int] \<noteq> []" and n2: "[5, 0, - 1, 0 :: int] \<noteq> []" by simp_all
  from batch_processes_the_indexed_files[OF h n1 s1, of "\<lambda>_. 0" "\<lambda>_. Completes ''cat''" "[]"]
    batch_processes_the_indexed_files[OF h n2 s2, of "\<lambda>_. 0" "\<lambda>_. Completes ''cat''" "[]"]
  show ?thesis by blast
qed

lemma caption_route_accepted:
  assumes "caption_route r pick env fs sessionId apiKey globalTags = (CaptionResponse rs es, fs', evs)"
  shows "sessionId \<noteq> [] \<and> apiKey \<noteq> []
       \<and> (\<exists>names. uploads fs sessionId = Some names \<and> route_files r names \<noteq> [])"
proof (rule ccontr)
  assume "\<not> ?thesis"
  then have "sessionId = [] \<or> apiKey = [] \<or> uploads fs sessionId = None
             \<or> (\<exists>names. uploads fs sessionId = Some names \<and> route_files r names = [])"
    by (cases "uploads fs sessionId") auto
  from caption_route_rejects[OF this, of pick env globalTags] assms show False by auto
qed

text \<open>
  Claim C1, amended: when a run over all N qualifying images of a session completes with
  no per-file failure, the caption files of the results directory are afterwards exactly
  the caption files it held before together with \<^verbatim>\<open><basename>.txt\<close> for each image. There
  are exactly N of them when the images have pairwise distinct base names and the
  directory, which lists each of its entries once, held no caption file before.
\<close>

theorem caption_files_after_complete_run:
  assumes "uploads fs sessionId = Some names"
    and "route_files r names = image_files names"
    and "caption_route r pick env fs sessionId apiKey globalTags = (CaptionResponse rs [], fs', evs)"
  shows "set (caption_files fs' sessionId)
           = set (caption_files fs sessionId) \<union> caption_name ` set (image_files names)
       \<and> (distinct (map caption_name (image_files names)) \<and> caption_files fs sessionId = []
            \<and> distinct (map fst (results_entries fs sessionId)) \<longrightarrow>
          length (caption_files fs' sessionId) = length (image_files names))"
proof -
  let ?files = "image_files names"
  let ?jobs = "enumerate 0 ?files"
  let ?dir = "results_entries fs sessionId"
  from caption_route_accepted[OF assms(3)] assms(1,2)
  have g: "sessionId \<noteq> []" "apiKey \<noteq> []" "route_files r names \<noteq> []" by auto
  from caption_route_result[OF g(1,2) assms(1) g(3), of pick env globalTags]
  obtain orders where
    perm: "mset (concat orders) = mset ?jobs"
    and run: "caption_route r pick env fs sessionId apiKey globalTags
           = (CaptionResponse (successes env globalTags (concat orders)) (failures env (concat orders)),
              fs\<lparr>results := (results fs)(sessionId \<mapsto>
                   foldl (write_caption env globalTags) ?dir (concat orders))\<rparr>,
              group_events (slices (route_size r) 0 ?jobs) orders)"
    unfolding assms(2) by blast
  let ?all = "concat orders"
  let ?dir' = "foldl (write_caption env globalTags) ?dir ?all"
  have set_all: "set ?all = set ?jobs" using perm by (rule mset_eq_setD)
  from run assms(3) have fs': "fs' = fs\<lparr>results := (results fs)(sessionId \<mapsto> ?dir')\<rparr>"
    and "failures env ?all = []" by simp_all
  then have all_written: "\<forall>j\<in>set ?jobs. written (env j) \<noteq> None"
    unfolding failures_empty_iff set_all by simp
  have "(\<lambda>j. caption_name (snd j)) ` {j \<in> set ?jobs. written (env j) \<noteq> None}
          = caption_name ` snd ` set ?jobs"
    using all_written by (auto simp: image_iff)
  then have keys: "fst ` set ?dir' = fst ` set ?dir \<union> caption_name ` set ?files"
    by (simp only: keys_foldl_write_caption set_all snd_set_enumerate)
  have caps: "is_caption n" if "n \<in> caption_name ` set ?files" for n
    using that by (auto simp: image_files_def intro: is_caption_caption_name)
  have cf': "caption_files fs' sessionId = filter is_caption (map fst ?dir')"
    by (simp add: fs' caption_files_def)
  have "set (caption_files fs' sessionId) = {n \<in> fst ` set ?dir'. is_caption n}"
    by (auto simp: cf')
  also have "\<dots> = {n \<in> fst ` set ?dir. is_caption n} \<union> caption_name ` set ?files"
    unfolding keys using caps by blast
  also have "{n \<in> fst ` set ?dir. is_caption n} = set (caption_files fs sessionId)"
    by (auto simp: caption_files_def)
  finally have first: "set (caption_files fs' sessionId)
           = set (caption_files fs sessionId) \<union> caption_name ` set ?files" .
  have "length (caption_files fs' sessionId) = length ?files"
    if d: "distinct (map caption_name ?files)" and e: "caption_files fs sessionId = []"
      and dd: "distinct (map fst ?dir)"
  proof -
    from dd have "distinct (map fst ?dir')" by (rule distinct_foldl_write_caption)
    then have "distinct (caption_files fs' sessionId)" by (simp add: cf')
    then have "length (caption_files fs' sessionId) = card (set (caption_files fs' sessionId))"
      by (simp add: distinct_card)
    also have "\<dots> = card (set (map caption_name ?files))" by (simp add: first e)
    also have "\<dots> = length (map caption_name ?files)" using d by (rule distinct_card)
    finally show ?thesis by simp
  qed
  with first show ?thesis by blast
qed

lemma one_image_run:
  "caption_route Generate (\<lambda>_. 0) (\<lambda>_. Completes ''cat'') one_image ''s'' ''key'' []
     = (CaptionResponse [(''a.jpg'', ''a.txt'', ''cat'')] [],
        one_image\<lparr>results := (results one_image)(''s'' \<mapsto> [(''a.txt'', ''cat'')])\<rparr>,
        [Issued (0, ''a.jpg''), Settled (0, ''a.jpg'')])"
proof -
  have mk: "make_caption [] ''cat'' = ''cat''"
    by (simp add: make_caption_def trim_def is_space_def)
  have "caption_run (\<lambda>_. 0) (\<lambda>_. Completes ''cat'') [] 5 [] [''a.jpg'']
          = \<lparr>entries = [(''a.txt'', ''cat'')], out_results = [(''a.jpg'', ''a.txt'', ''cat'')],
             out_errors = [], events = [Issued (0, ''a.jpg''), Settled (0, ''a.jpg'')]\<rparr>"
    by (simp add: caption_run_def one_image_jobs process_group_def settle_def mk one_image_files Let_def)
  then show ?thesis
    by (simp add: caption_route_def generate_def one_image_files Let_def finish_def
        results_after_ensureDir)
qed

theorem caption_files_after_complete_run_witness:
  "set (caption_files (one_image\<lparr>results := (results one_image)(''s'' \<mapsto> [(''a.txt'', ''cat'')])\<rparr>) ''s'')
     = {''a.txt''}
   \<and> length (caption_files (one_image\<lparr>results := (results one_image)(''s'' \<mapsto> [(''a.txt'', ''cat'')])\<rparr>) ''s'')
     = length (image_files [''a.jpg'', ''notes.md''])"
proof -
  have h: "uploads one_image ''s'' = Some [''a.jpg'', ''notes.md'']"
    "route_files Generate [''a.jpg'', ''notes.md''] = image_files [''a.jpg'', ''notes.md'']"
    by (simp_all add: one_image_files route_files_def)
  have pre: "distinct (map caption_name (image_files [''a.jpg'', ''notes.md'']))
       \<and> caption_files one_image ''s'' = [] \<and> distinct (map fst (results_entries one_image ''s''))"
    by (simp add: one_image_files caption_files_def)
  from caption_files_after_complete_run[OF h one_image_run] pre
  show ?thesis by (simp add: one_image_files caption_files_def)
qed

lemma same_basename_run:
  "caption_route Generate settle_in_order completes_cat same_basename ''s'' ''key'' []
     = (CaptionResponse [(''a.jpg'', ''a.txt'', ''cat''), (''a.png'', ''a.txt'', ''cat'')] [],
        same_basename\<lparr>results := (results same_basename)(''s'' \<mapsto> [(''a.txt'', ''cat'')])\<rparr>,
        [Issued (0, ''a.jpg''), Issued (1, ''a.png''), Settled (0, ''a.jpg''), Settled (1, ''a.png'')])"
proof -
  have mk: "make_caption [] ''cat'' = ''cat''"
    by (simp add: make_caption_def trim_def is_space_def)
  have cn: "caption_name ''a.jpg'' = ''a.txt''" "caption_name ''a.png'' = ''a.txt''"
    using parse_name_dot_suffix[of "''a''" "''jpg''"] parse_name_dot_suffix[of "''a''" "''png''"]
    by (simp_all add: caption_name_def)
  have sl: "slices 5 0 [(0 :: nat, ''a.jpg''), (1, ''a.png'')] = [[(0, ''a.jpg''), (1, ''a.png'')]]"
    by (simp add: slices.simps[of 5 0] slices.simps[of 5 5])
  have en: "enumerate 0 [''a.jpg'', ''a.png''] = [(0, ''a.jpg''), (1, ''a.png'')]" by simp
  have "caption_run settle_in_order completes_cat [] 5 [] [''a.jpg'', ''a.png'']
          = \<lparr>entries = [(''a.txt'', ''cat'')],
             out_results = [(''a.jpg'', ''a.txt'', ''cat''), (''a.png'', ''a.txt'', ''cat'')],
             out_errors = [],
             events = [Issued (0, ''a.jpg''), Issued (1, ''a.png''), Settled (0, ''a.jpg''), Settled (1, ''a.png'')]\<rparr>"
    unfolding caption_run_def en sl
    by (simp add: process_group_def settle_def mk cn Let_def settle_in_order_def completes_cat_def)
  then show ?thesis
    by (simp add: caption_route_def generate_def same_basename_files Let_def finish_def
        results_after_ensureDir)
qed

text \<open>
  Claim C1 as stated fails when two images share a base name: \<^verbatim>\<open>a.jpg\<close> and \<^verbatim>\<open>a.png\<close>
  are both captioned without a failure, both captions go to \<^verbatim>\<open>a.txt\<close>, and the results
  directory holds one caption file for the two images.
\<close>

theorem caption_count_counterexample:
  "uploads same_basename ''s'' = Some [''a.jpg'', ''a.png'']
   \<and> length (image_files [''a.jpg'', ''a.png'']) = 2
   \<and> fst (generate settle_in_order completes_cat same_basename ''s'' ''key'' [])
       = CaptionResponse [(''a.jpg'', ''a.txt'', ''cat''), (''a.png'', ''a.txt'', ''cat'')] []
   \<and> caption_files (fst (snd (generate settle_in_order completes_cat same_basename ''s'' ''key'' []))) ''s''
       = [''a.txt'']"
proof -
  have cap: "is_caption ''a.txt''" using is_caption_txt[of "''a''"] by simp
  have "generate settle_in_order completes_cat same_basename ''s'' ''key'' []
     = (CaptionResponse [(''a.jpg'', ''a.txt'', ''cat''), (''a.png'', ''a.txt'', ''cat'')] [],
        same_basename\<lparr>results := (results same_basename)(''s'' \<mapsto> [(''a.txt'', ''cat'')])\<rparr>,
        [Issued (0, ''a.jpg''), Issued (1, ''a.png''), Settled (0, ''a.jpg''), Settled (1, ''a.png'')])"
    using same_basename_run by (simp add: caption_route_def)
  then show ?thesis
    by (simp add: same_basename_files caption_files_def cap)
qed

end
